theory Spec2Isabelle
  imports Complex_Main "HOL-Library.Word" "HOL-Library.Log_Nat"
begin

section \<open>The platform: \<open>node:buffer\<close>\<close>

text \<open>
  \<open>src/little.ts\<close> is two thin classes over the \<open>Buffer\<close> class of \<open>node:buffer\<close>.
  A \<open>Buffer\<close> is a fixed-length sequence of bytes; it is modelled as a list of 8-bit
  words.  A JavaScript \<open>number\<close> that holds an integer (offsets, lengths, the values of
  the integer reads and writes) is modelled as an \<open>int\<close>; numbers with a fractional part
  and NaN are outside the model for those arguments.  Sums of such numbers are float64
  sums, see \<open>float64_add\<close> below.  A number handed to or
  returned by the floating-point methods is modelled by its IEEE-754 bit pattern
  (\<open>float32\<close>, \<open>double\<close> below); how a NaN payload is stored is left to the engine by the
  language and is outside the model.

  An exception is a value: every method returns \<open>Inl\<close> the error or \<open>Inr\<close> the result.
\<close>

type_synonym byte = "8 word"
type_synonym Buffer = "byte list"

datatype float32 = Float32 (float32_bits: "32 word")
datatype double = Double (double_bits: "64 word")

text \<open>
  The two errors the \<open>Buffer\<close> accessors throw; both are \<open>RangeError\<close>s.  The string
  of \<open>ERR_OUT_OF_RANGE\<close> is the name of the offending argument.
\<close>

datatype error = ERR_OUT_OF_RANGE string | ERR_BUFFER_OUT_OF_BOUNDS

text \<open>\<open>buf[i]\<close>: the byte at an integer index, \<open>undefined\<close> (here \<open>None\<close>) outside the buffer.\<close>

definition Buffer_at :: "Buffer \<Rightarrow> int \<Rightarrow> byte option" where
  "Buffer_at buf i = (if 0 \<le> i \<and> i < int (length buf) then Some (buf ! nat i) else None)"

text \<open>
  \<open>boundsError(value, length)\<close> of Node's buffer implementation, for an integer offset
  \<open>value\<close>; \<open>length\<close> is the largest admissible offset.
\<close>

definition boundsError :: "int \<Rightarrow> int \<Rightarrow> error" where
  "boundsError v len = (if len < 0 then ERR_BUFFER_OUT_OF_BOUNDS else ERR_OUT_OF_RANGE ''offset'')"

text \<open>
  The common part of the fixed-width reads: the first and the last byte of the field are
  fetched; if either is \<open>undefined\<close> the read throws \<open>boundsError(offset, buf.length - w)\<close>,
  otherwise the \<open>w\<close> bytes from \<open>offset\<close> on are decoded.
\<close>

definition read_field :: "nat \<Rightarrow> Buffer \<Rightarrow> int \<Rightarrow> error + Buffer" where
  "read_field w buf offset =
     (if Buffer_at buf offset = None \<or> Buffer_at buf (offset + int w - 1) = None
      then Inl (boundsError offset (int (length buf) - int w))
      else Inr (take w (drop (nat offset) buf)))"

text \<open>Little-endian value of a byte sequence: \<open>first + second * 2 ** 8 + ...\<close>.\<close>

fun le_uint :: "Buffer \<Rightarrow> int" where
  "le_uint [] = 0"
| "le_uint (b # bs) = uint b + 2 ^ 8 * le_uint bs"

text \<open>Two's complement reading of an unsigned \<open>bits\<close>-bit value.\<close>

definition to_signed :: "nat \<Rightarrow> int \<Rightarrow> int" where
  "to_signed bits v = (if 2 ^ (bits - 1) \<le> v then v - 2 ^ bits else v)"

definition Buffer_readUInt8 :: "Buffer \<Rightarrow> int \<Rightarrow> error + int" where
  "Buffer_readUInt8 buf offset = map_sum id le_uint (read_field 1 buf offset)"

definition Buffer_readUInt16LE :: "Buffer \<Rightarrow> int \<Rightarrow> error + int" where
  "Buffer_readUInt16LE buf offset = map_sum id le_uint (read_field 2 buf offset)"

definition Buffer_readUInt32LE :: "Buffer \<Rightarrow> int \<Rightarrow> error + int" where
  "Buffer_readUInt32LE buf offset = map_sum id le_uint (read_field 4 buf offset)"

definition Buffer_readInt8 :: "Buffer \<Rightarrow> int \<Rightarrow> error + int" where
  "Buffer_readInt8 buf offset =
     map_sum id (\<lambda>bs. to_signed 8 (le_uint bs)) (read_field 1 buf offset)"

definition Buffer_readInt16LE :: "Buffer \<Rightarrow> int \<Rightarrow> error + int" where
  "Buffer_readInt16LE buf offset =
     map_sum id (\<lambda>bs. to_signed 16 (le_uint bs)) (read_field 2 buf offset)"

definition Buffer_readInt32LE :: "Buffer \<Rightarrow> int \<Rightarrow> error + int" where
  "Buffer_readInt32LE buf offset =
     map_sum id (\<lambda>bs. to_signed 32 (le_uint bs)) (read_field 4 buf offset)"

definition Buffer_readFloatLE :: "Buffer \<Rightarrow> int \<Rightarrow> error + float32" where
  "Buffer_readFloatLE buf offset =
     map_sum id (\<lambda>bs. Float32 (word_of_int (le_uint bs))) (read_field 4 buf offset)"

definition Buffer_readDoubleLE :: "Buffer \<Rightarrow> int \<Rightarrow> error + double" where
  "Buffer_readDoubleLE buf offset =
     map_sum id (\<lambda>bs. Double (word_of_int (le_uint bs))) (read_field 8 buf offset)"

text \<open>
  \<open>buf.subarray(start, end)\<close> for integer arguments.  \<open>adjustOffset\<close> is Node's helper:
  a negative index counts from the end of the buffer, and the result is clamped to
  \<open>0 .. length\<close>.  The view shares the storage of \<open>buf\<close>; the model returns its bytes.
\<close>

definition adjustOffset :: "int \<Rightarrow> int \<Rightarrow> int" where
  "adjustOffset offset len =
     (if offset = 0 then 0
      else if offset < 0 then (if offset + len > 0 then offset + len else 0)
      else if offset < len then offset
      else len)"

definition Buffer_subarray :: "Buffer \<Rightarrow> int \<Rightarrow> int \<Rightarrow> Buffer" where
  "Buffer_subarray buf start end =
     (let srcLength = int (length buf);
          s = adjustOffset start srcLength;
          e = adjustOffset end srcLength;
          newLength = (if e > s then e - s else 0)
      in take (nat newLength) (drop (nat s) buf))"

text \<open>\<open>Buffer.alloc(n)\<close>: \<open>n\<close> zero bytes.  \<open>Buffer.concat(list)\<close>: a new buffer, the
  members of the list one after the other.\<close>

definition Buffer_alloc :: "nat \<Rightarrow> Buffer" where
  "Buffer_alloc n = replicate n 0"

definition Buffer_concat :: "Buffer list \<Rightarrow> Buffer" where
  "Buffer_concat bufs = concat bufs"

text \<open>
  The \<open>w\<close> low-order bytes of an integer, least significant first: what
  \<open>buf[offset++] = value; value = value >>> 8; ...\<close> stores (an element store of a
  \<open>Uint8Array\<close> keeps the value modulo \<open>2 ** 8\<close>).
\<close>

fun le_bytes :: "nat \<Rightarrow> int \<Rightarrow> Buffer" where
  "le_bytes 0 v = []"
| "le_bytes (Suc n) v = word_of_int v # le_bytes n (v div 2 ^ 8)"

text \<open>Storing a field in place: \<open>buf\<close> with the bytes from \<open>offset\<close> on replaced.\<close>

definition store_field :: "Buffer \<Rightarrow> int \<Rightarrow> Buffer \<Rightarrow> Buffer" where
  "store_field buf offset bs =
     take (nat offset) buf @ bs @ drop (nat offset + length bs) buf"

text \<open>
  The common part of the integer writes (\<open>writeU_Int8\<close>, \<open>writeU_Int16LE\<close>,
  \<open>writeU_Int32LE\<close> with \<open>checkInt\<close>): a value outside \<open>min .. max\<close> throws
  \<open>ERR_OUT_OF_RANGE\<close> for \<open>value\<close>; then the bounds of the field are checked as for a
  read; then the bytes are stored.  The methods mutate \<open>buf\<close>; the model returns the
  buffer after the store.
\<close>

definition write_int :: "nat \<Rightarrow> Buffer \<Rightarrow> int \<Rightarrow> int \<Rightarrow> int \<Rightarrow> int \<Rightarrow> error + Buffer" where
  "write_int w buf v offset mn mx =
     (if v > mx \<or> v < mn then Inl (ERR_OUT_OF_RANGE ''value'')
      else if Buffer_at buf offset = None \<or> Buffer_at buf (offset + int w - 1) = None
      then Inl (boundsError offset (int (length buf) - int w))
      else Inr (store_field buf offset (le_bytes w v)))"

definition Buffer_writeUInt8 :: "Buffer \<Rightarrow> int \<Rightarrow> int \<Rightarrow> error + Buffer" where
  "Buffer_writeUInt8 buf v offset = write_int 1 buf v offset 0 0xff"

definition Buffer_writeUInt16LE :: "Buffer \<Rightarrow> int \<Rightarrow> int \<Rightarrow> error + Buffer" where
  "Buffer_writeUInt16LE buf v offset = write_int 2 buf v offset 0 0xffff"

definition Buffer_writeUInt32LE :: "Buffer \<Rightarrow> int \<Rightarrow> int \<Rightarrow> error + Buffer" where
  "Buffer_writeUInt32LE buf v offset = write_int 4 buf v offset 0 0xffffffff"

definition Buffer_writeInt8 :: "Buffer \<Rightarrow> int \<Rightarrow> int \<Rightarrow> error + Buffer" where
  "Buffer_writeInt8 buf v offset = write_int 1 buf v offset (- 0x80) 0x7f"

definition Buffer_writeInt16LE :: "Buffer \<Rightarrow> int \<Rightarrow> int \<Rightarrow> error + Buffer" where
  "Buffer_writeInt16LE buf v offset = write_int 2 buf v offset (- 0x8000) 0x7fff"

definition Buffer_writeInt32LE :: "Buffer \<Rightarrow> int \<Rightarrow> int \<Rightarrow> error + Buffer" where
  "Buffer_writeInt32LE buf v offset = write_int 4 buf v offset (- 0x80000000) 0x7fffffff"

text \<open>
  The floating-point writes check the bounds only; there is no range check on the
  value.
\<close>

definition write_bits :: "nat \<Rightarrow> Buffer \<Rightarrow> int \<Rightarrow> int \<Rightarrow> error + Buffer" where
  "write_bits w buf bits offset =
     (if Buffer_at buf offset = None \<or> Buffer_at buf (offset + int w - 1) = None
      then Inl (boundsError offset (int (length buf) - int w))
      else Inr (store_field buf offset (le_bytes w bits)))"

definition Buffer_writeFloatLE :: "Buffer \<Rightarrow> float32 \<Rightarrow> int \<Rightarrow> error + Buffer" where
  "Buffer_writeFloatLE buf v offset = write_bits 4 buf (uint (float32_bits v)) offset"

definition Buffer_writeDoubleLE :: "Buffer \<Rightarrow> double \<Rightarrow> int \<Rightarrow> error + Buffer" where
  "Buffer_writeDoubleLE buf v offset = write_bits 8 buf (uint (double_bits v)) offset"

section \<open>Sums of numbers\<close>

text \<open>
  Every \<open>number\<close> is an IEEE-754 binary64 value, and \<open>+\<close> rounds the exact sum to the
  nearest such value, to the one with the even significand in a tie.  Integers below
  \<open>2 ^ 53\<close> in magnitude are all binary64 values; from there on only the multiples of a
  power of two are, the unit growing with the magnitude.  \<open>bit_length n\<close> is the number of
  binary digits of \<open>n\<close>, \<open>float64_ulp n\<close> the distance between the binary64 values around
  \<open>n\<close> (a significand has 53 digits), and \<open>round_nearest_even n\<close> the binary64 value that
  \<open>n\<close> rounds to when the exponent range is left unbounded.  A magnitude that rounds to
  \<open>2 ^ 1024\<close> or more is \<open>Infinity\<close>; the integers \<open>2 ^ 1024\<close> and \<open>- (2 ^ 1024)\<close>, which
  are no finite binary64 values, stand for \<open>Infinity\<close> and \<open>-Infinity\<close>.  \<open>float64_int x\<close>
  says that the integer \<open>x\<close> is a number in this sense.

  \<open>float64_add a b\<close> is \<open>a + b\<close> as the program computes it, for a number \<open>a\<close> and a
  finite number \<open>b\<close>: adding zero changes nothing, an infinite \<open>a\<close> stays what it
  is, and every other sum is the exact sum rounded.  The program can be handed numbers
  only: an integer that is no binary64 value, such as \<open>2 ^ 53 + 1\<close>, is rounded where it
  is written, before any method sees it.
\<close>

fun bit_length :: "nat \<Rightarrow> nat" where
  "bit_length n = (if n = 0 then 0 else Suc (bit_length (n div 2)))"

declare bit_length.simps [simp del]

definition float64_ulp :: "nat \<Rightarrow> nat" where
  "float64_ulp n = 2 ^ (bit_length n - 53)"

definition round_nearest_even :: "nat \<Rightarrow> nat" where
  "round_nearest_even n =
     (let u = float64_ulp n; q = n div u; r = n mod u
      in (if u < 2 * r \<or> (u = 2 * r \<and> odd q) then q + 1 else q) * u)"

definition float64_infinity :: nat where
  "float64_infinity = 2 ^ 1024"

definition float64_round :: "int \<Rightarrow> int" where
  "float64_round x = sgn x * int (min (round_nearest_even (nat \<bar>x\<bar>)) float64_infinity)"

definition float64_int :: "int \<Rightarrow> bool" where
  "float64_int x \<longleftrightarrow> float64_round x = x"

definition float64_add :: "int \<Rightarrow> int \<Rightarrow> int" where
  "float64_add a b =
     (if b = 0 then a
      else if a = 0 then b
      else if int float64_infinity \<le> \<bar>a\<bar> then a
      else if int float64_infinity \<le> \<bar>b\<bar> then b
      else float64_round (a + b))"

section \<open>\<open>BinReader\<close>\<close>

text \<open>
  The class has two fields, the buffer given to the constructor and \<open>position\<close>, a
  public accessor initialised to 0.  A method returns its result or the exception it
  threw, together with the reader afterwards: a \<open>Buffer\<close> read that throws does so before
  \<open>this.position += w\<close> runs, so the reader is then the one the method was called on.
  A fixed-width read that succeeds has \<open>0 \<le> position\<close> and \<open>position + w \<le> buffer.length\<close>,
  and a \<open>Buffer\<close> holds fewer than \<open>2 ^ 53\<close> bytes, so its \<open>position += w\<close> is exact and is
  written with \<open>+\<close>.  \<open>readBytes\<close> adds whatever length the caller gives: both its
  \<open>this.position + length\<close> and its \<open>this.position += length\<close> are \<open>float64_add\<close>.
\<close>

record BinReader =
  buffer :: Buffer
  position :: int

definition new_BinReader :: "Buffer \<Rightarrow> BinReader" where
  "new_BinReader buf = \<lparr>BinReader.buffer = buf, position = 0\<rparr>"

definition readUInt8 :: "BinReader \<Rightarrow> (error + int) \<times> BinReader" where
  "readUInt8 r =
     (case Buffer_readUInt8 (BinReader.buffer r) (position r) of
        Inl e \<Rightarrow> (Inl e, r)
      | Inr v \<Rightarrow> (Inr v, r\<lparr>position := position r + 1\<rparr>))"

definition readUInt16 :: "BinReader \<Rightarrow> (error + int) \<times> BinReader" where
  "readUInt16 r =
     (case Buffer_readUInt16LE (BinReader.buffer r) (position r) of
        Inl e \<Rightarrow> (Inl e, r)
      | Inr v \<Rightarrow> (Inr v, r\<lparr>position := position r + 2\<rparr>))"

definition readUInt32 :: "BinReader \<Rightarrow> (error + int) \<times> BinReader" where
  "readUInt32 r =
     (case Buffer_readUInt32LE (BinReader.buffer r) (position r) of
        Inl e \<Rightarrow> (Inl e, r)
      | Inr v \<Rightarrow> (Inr v, r\<lparr>position := position r + 4\<rparr>))"

definition readInt8 :: "BinReader \<Rightarrow> (error + int) \<times> BinReader" where
  "readInt8 r =
     (case Buffer_readInt8 (BinReader.buffer r) (position r) of
        Inl e \<Rightarrow> (Inl e, r)
      | Inr v \<Rightarrow> (Inr v, r\<lparr>position := position r + 1\<rparr>))"

definition readInt16 :: "BinReader \<Rightarrow> (error + int) \<times> BinReader" where
  "readInt16 r =
     (case Buffer_readInt16LE (BinReader.buffer r) (position r) of
        Inl e \<Rightarrow> (Inl e, r)
      | Inr v \<Rightarrow> (Inr v, r\<lparr>position := position r + 2\<rparr>))"

definition readInt32 :: "BinReader \<Rightarrow> (error + int) \<times> BinReader" where
  "readInt32 r =
     (case Buffer_readInt32LE (BinReader.buffer r) (position r) of
        Inl e \<Rightarrow> (Inl e, r)
      | Inr v \<Rightarrow> (Inr v, r\<lparr>position := position r + 4\<rparr>))"

definition readFloat32 :: "BinReader \<Rightarrow> (error + float32) \<times> BinReader" where
  "readFloat32 r =
     (case Buffer_readFloatLE (BinReader.buffer r) (position r) of
        Inl e \<Rightarrow> (Inl e, r)
      | Inr v \<Rightarrow> (Inr v, r\<lparr>position := position r + 4\<rparr>))"

definition readDouble :: "BinReader \<Rightarrow> (error + double) \<times> BinReader" where
  "readDouble r =
     (case Buffer_readDoubleLE (BinReader.buffer r) (position r) of
        Inl e \<Rightarrow> (Inl e, r)
      | Inr v \<Rightarrow> (Inr v, r\<lparr>position := position r + 8\<rparr>))"

text \<open>\<open>readBytes\<close> has no failing call: \<open>subarray\<close> never throws.\<close>

definition readBytes :: "BinReader \<Rightarrow> int \<Rightarrow> (error + Buffer) \<times> BinReader" where
  "readBytes r len =
     (let v = Buffer_subarray (BinReader.buffer r) (position r)
                (float64_add (position r) len)
      in (Inr v, r\<lparr>position := float64_add (position r) len\<rparr>))"

section \<open>\<open>BinWriter\<close>\<close>

text \<open>
  The class has one field, the buffer, initialised to \<open>Buffer.alloc(0)\<close>.  Every typed
  write allocates a chunk of the width of the type, stores the value in it at offset 0
  and replaces the buffer by the concatenation of the buffer and the chunk.  When the
  store throws, the assignment does not run.
\<close>

record BinWriter =
  buffer :: Buffer

definition new_BinWriter :: BinWriter where
  "new_BinWriter = \<lparr>BinWriter.buffer = Buffer_alloc 0\<rparr>"

definition writeUInt8 :: "BinWriter \<Rightarrow> int \<Rightarrow> (error + unit) \<times> BinWriter" where
  "writeUInt8 s v =
     (case Buffer_writeUInt8 (Buffer_alloc 1) v 0 of
        Inl e \<Rightarrow> (Inl e, s)
      | Inr chunk \<Rightarrow>
          (Inr (), s\<lparr>BinWriter.buffer := Buffer_concat [BinWriter.buffer s, chunk]\<rparr>))"

definition writeUInt16 :: "BinWriter \<Rightarrow> int \<Rightarrow> (error + unit) \<times> BinWriter" where
  "writeUInt16 s v =
     (case Buffer_writeUInt16LE (Buffer_alloc 2) v 0 of
        Inl e \<Rightarrow> (Inl e, s)
      | Inr chunk \<Rightarrow>
          (Inr (), s\<lparr>BinWriter.buffer := Buffer_concat [BinWriter.buffer s, chunk]\<rparr>))"

definition writeUInt32 :: "BinWriter \<Rightarrow> int \<Rightarrow> (error + unit) \<times> BinWriter" where
  "writeUInt32 s v =
     (case Buffer_writeUInt32LE (Buffer_alloc 4) v 0 of
        Inl e \<Rightarrow> (Inl e, s)
      | Inr chunk \<Rightarrow>
          (Inr (), s\<lparr>BinWriter.buffer := Buffer_concat [BinWriter.buffer s, chunk]\<rparr>))"

definition writeInt8 :: "BinWriter \<Rightarrow> int \<Rightarrow> (error + unit) \<times> BinWriter" where
  "writeInt8 s v =
     (case Buffer_writeInt8 (Buffer_alloc 1) v 0 of
        Inl e \<Rightarrow> (Inl e, s)
      | Inr chunk \<Rightarrow>
          (Inr (), s\<lparr>BinWriter.buffer := Buffer_concat [BinWriter.buffer s, chunk]\<rparr>))"

definition writeInt16 :: "BinWriter \<Rightarrow> int \<Rightarrow> (error + unit) \<times> BinWriter" where
  "writeInt16 s v =
     (case Buffer_writeInt16LE (Buffer_alloc 2) v 0 of
        Inl e \<Rightarrow> (Inl e, s)
      | Inr chunk \<Rightarrow>
          (Inr (), s\<lparr>BinWriter.buffer := Buffer_concat [BinWriter.buffer s, chunk]\<rparr>))"

definition writeInt32 :: "BinWriter \<Rightarrow> int \<Rightarrow> (error + unit) \<times> BinWriter" where
  "writeInt32 s v =
     (case Buffer_writeInt32LE (Buffer_alloc 4) v 0 of
        Inl e \<Rightarrow> (Inl e, s)
      | Inr chunk \<Rightarrow>
          (Inr (), s\<lparr>BinWriter.buffer := Buffer_concat [BinWriter.buffer s, chunk]\<rparr>))"

definition writeFloat32 :: "BinWriter \<Rightarrow> float32 \<Rightarrow> (error + unit) \<times> BinWriter" where
  "writeFloat32 s v =
     (case Buffer_writeFloatLE (Buffer_alloc 4) v 0 of
        Inl e \<Rightarrow> (Inl e, s)
      | Inr chunk \<Rightarrow>
          (Inr (), s\<lparr>BinWriter.buffer := Buffer_concat [BinWriter.buffer s, chunk]\<rparr>))"

definition writeDouble :: "BinWriter \<Rightarrow> double \<Rightarrow> (error + unit) \<times> BinWriter" where
  "writeDouble s v =
     (case Buffer_writeDoubleLE (Buffer_alloc 8) v 0 of
        Inl e \<Rightarrow> (Inl e, s)
      | Inr chunk \<Rightarrow>
          (Inr (), s\<lparr>BinWriter.buffer := Buffer_concat [BinWriter.buffer s, chunk]\<rparr>))"

definition writeBytes :: "BinWriter \<Rightarrow> Buffer \<Rightarrow> (error + unit) \<times> BinWriter" where
  "writeBytes s v =
     (Inr (), s\<lparr>BinWriter.buffer := Buffer_concat [BinWriter.buffer s, v]\<rparr>)"

section \<open>Calls and sequences of calls\<close>

text \<open>
  A call of a reader method, as data, so that properties of every operation and of
  sequences of operations can be stated.  \<open>call_read\<close> dispatches to the method.
\<close>

datatype read_op =
  ReadUInt8 | ReadUInt16 | ReadUInt32 | ReadInt8 | ReadInt16 | ReadInt32
| ReadFloat32 | ReadDouble | ReadBytes int

datatype read_value =
  IntValue int | Float32Value float32 | DoubleValue double | BytesValue Buffer

fun call_read :: "BinReader \<Rightarrow> read_op \<Rightarrow> (error + read_value) \<times> BinReader" where
  "call_read r ReadUInt8 = map_prod (map_sum id IntValue) id (readUInt8 r)"
| "call_read r ReadUInt16 = map_prod (map_sum id IntValue) id (readUInt16 r)"
| "call_read r ReadUInt32 = map_prod (map_sum id IntValue) id (readUInt32 r)"
| "call_read r ReadInt8 = map_prod (map_sum id IntValue) id (readInt8 r)"
| "call_read r ReadInt16 = map_prod (map_sum id IntValue) id (readInt16 r)"
| "call_read r ReadInt32 = map_prod (map_sum id IntValue) id (readInt32 r)"
| "call_read r ReadFloat32 = map_prod (map_sum id Float32Value) id (readFloat32 r)"
| "call_read r ReadDouble = map_prod (map_sum id DoubleValue) id (readDouble r)"
| "call_read r (ReadBytes len) = map_prod (map_sum id BytesValue) id (readBytes r len)"

text \<open>The byte width of a read, from the table of operations; for \<open>readBytes\<close> the
  length the caller gives.\<close>

fun read_width :: "read_op \<Rightarrow> int" where
  "read_width ReadUInt8 = 1"
| "read_width ReadUInt16 = 2"
| "read_width ReadUInt32 = 4"
| "read_width ReadInt8 = 1"
| "read_width ReadInt16 = 2"
| "read_width ReadInt32 = 4"
| "read_width ReadFloat32 = 4"
| "read_width ReadDouble = 8"
| "read_width (ReadBytes len) = len"

fun fixed_width :: "read_op \<Rightarrow> bool" where
  "fixed_width (ReadBytes len) = False"
| "fixed_width _ = True"

text \<open>
  A caller making the calls of a list one after the other on the same reader, going on
  after a call that threw; the result is the reader after the last call.
\<close>

fun run_reads :: "BinReader \<Rightarrow> read_op list \<Rightarrow> BinReader" where
  "run_reads r [] = r"
| "run_reads r (op # ops) = run_reads (snd (call_read r op)) ops"

text \<open>The same for the writer.\<close>

datatype write_op =
  WriteUInt8 int | WriteUInt16 int | WriteUInt32 int
| WriteInt8 int | WriteInt16 int | WriteInt32 int
| WriteFloat32 float32 | WriteDouble double | WriteBytes Buffer

fun call_write :: "BinWriter \<Rightarrow> write_op \<Rightarrow> (error + unit) \<times> BinWriter" where
  "call_write s (WriteUInt8 v) = writeUInt8 s v"
| "call_write s (WriteUInt16 v) = writeUInt16 s v"
| "call_write s (WriteUInt32 v) = writeUInt32 s v"
| "call_write s (WriteInt8 v) = writeInt8 s v"
| "call_write s (WriteInt16 v) = writeInt16 s v"
| "call_write s (WriteInt32 v) = writeInt32 s v"
| "call_write s (WriteFloat32 v) = writeFloat32 s v"
| "call_write s (WriteDouble v) = writeDouble s v"
| "call_write s (WriteBytes v) = writeBytes s v"

fun write_width :: "write_op \<Rightarrow> nat" where
  "write_width (WriteUInt8 v) = 1"
| "write_width (WriteUInt16 v) = 2"
| "write_width (WriteUInt32 v) = 4"
| "write_width (WriteInt8 v) = 1"
| "write_width (WriteInt16 v) = 2"
| "write_width (WriteInt32 v) = 4"
| "write_width (WriteFloat32 v) = 4"
| "write_width (WriteDouble v) = 8"
| "write_width (WriteBytes v) = length v"

text \<open>
  A sequence of writes all of which succeed: the calls of the list one after the other,
  ended by the first exception.
\<close>

fun run_writes :: "BinWriter \<Rightarrow> write_op list \<Rightarrow> error + BinWriter" where
  "run_writes s [] = Inr s"
| "run_writes s (op # ops) =
     (case call_write s op of
        (Inl e, s') \<Rightarrow> Inl e
      | (Inr u, s') \<Rightarrow> run_writes s' ops)"

section \<open>Notions of the specification\<close>

text \<open>
  The specification's \<open>OutOfBounds\<close> condition: the read needed bytes outside the
  buffer.  \<open>Buffer\<close> reports it by one of two \<open>RangeError\<close>s.
\<close>

definition OutOfBounds :: "error \<Rightarrow> bool" where
  "OutOfBounds e \<longleftrightarrow> e = ERR_BUFFER_OUT_OF_BOUNDS \<or> e = ERR_OUT_OF_RANGE ''offset''"

text \<open>The invariant the specification gives for a reader.\<close>

definition reader_inv :: "BinReader \<Rightarrow> bool" where
  "reader_inv r \<longleftrightarrow> 0 \<le> position r \<and> position r \<le> int (length (BinReader.buffer r))"

text \<open>
  The value a write is given, and whether it is representable in the type of the write:
  the range of the unsigned or signed integer type of that width.  The floating-point
  and byte-span arguments of the model are representable by construction.
\<close>

fun written_value :: "write_op \<Rightarrow> read_value" where
  "written_value (WriteUInt8 v) = IntValue v"
| "written_value (WriteUInt16 v) = IntValue v"
| "written_value (WriteUInt32 v) = IntValue v"
| "written_value (WriteInt8 v) = IntValue v"
| "written_value (WriteInt16 v) = IntValue v"
| "written_value (WriteInt32 v) = IntValue v"
| "written_value (WriteFloat32 v) = Float32Value v"
| "written_value (WriteDouble v) = DoubleValue v"
| "written_value (WriteBytes v) = BytesValue v"

fun representable :: "write_op \<Rightarrow> bool" where
  "representable (WriteUInt8 v) = (0 \<le> v \<and> v < 2 ^ 8)"
| "representable (WriteUInt16 v) = (0 \<le> v \<and> v < 2 ^ 16)"
| "representable (WriteUInt32 v) = (0 \<le> v \<and> v < 2 ^ 32)"
| "representable (WriteInt8 v) = (- (2 ^ 7) \<le> v \<and> v < 2 ^ 7)"
| "representable (WriteInt16 v) = (- (2 ^ 15) \<le> v \<and> v < 2 ^ 15)"
| "representable (WriteInt32 v) = (- (2 ^ 31) \<le> v \<and> v < 2 ^ 31)"
| "representable (WriteFloat32 v) = True"
| "representable (WriteDouble v) = True"
| "representable (WriteBytes v) = True"

text \<open>The read that corresponds to a write.\<close>

fun corresponding_read :: "write_op \<Rightarrow> read_op" where
  "corresponding_read (WriteUInt8 v) = ReadUInt8"
| "corresponding_read (WriteUInt16 v) = ReadUInt16"
| "corresponding_read (WriteUInt32 v) = ReadUInt32"
| "corresponding_read (WriteInt8 v) = ReadInt8"
| "corresponding_read (WriteInt16 v) = ReadInt16"
| "corresponding_read (WriteInt32 v) = ReadInt32"
| "corresponding_read (WriteFloat32 v) = ReadFloat32"
| "corresponding_read (WriteDouble v) = ReadDouble"
| "corresponding_read (WriteBytes v) = ReadBytes (int (length v))"

text \<open>
  What a fixed-width read makes of the bytes of its field, and the bytes a write appends
  when it succeeds; both collect, per operation, what the \<open>Buffer\<close> accessors above do.
\<close>

fun decode_field :: "read_op \<Rightarrow> Buffer \<Rightarrow> read_value" where
  "decode_field ReadUInt8 bs = IntValue (le_uint bs)"
| "decode_field ReadUInt16 bs = IntValue (le_uint bs)"
| "decode_field ReadUInt32 bs = IntValue (le_uint bs)"
| "decode_field ReadInt8 bs = IntValue (to_signed 8 (le_uint bs))"
| "decode_field ReadInt16 bs = IntValue (to_signed 16 (le_uint bs))"
| "decode_field ReadInt32 bs = IntValue (to_signed 32 (le_uint bs))"
| "decode_field ReadFloat32 bs = Float32Value (Float32 (word_of_int (le_uint bs)))"
| "decode_field ReadDouble bs = DoubleValue (Double (word_of_int (le_uint bs)))"
| "decode_field (ReadBytes len) bs = BytesValue bs"

fun field_bytes :: "write_op \<Rightarrow> Buffer" where
  "field_bytes (WriteUInt8 v) = le_bytes 1 v"
| "field_bytes (WriteUInt16 v) = le_bytes 2 v"
| "field_bytes (WriteUInt32 v) = le_bytes 4 v"
| "field_bytes (WriteInt8 v) = le_bytes 1 v"
| "field_bytes (WriteInt16 v) = le_bytes 2 v"
| "field_bytes (WriteInt32 v) = le_bytes 4 v"
| "field_bytes (WriteFloat32 v) = le_bytes 4 (uint (float32_bits v))"
| "field_bytes (WriteDouble v) = le_bytes 8 (uint (double_bits v))"
| "field_bytes (WriteBytes v) = v"

text \<open>
  Sequences of reads that keep the reader inside its buffer: every \<open>readBytes\<close> of the
  list is called with a length that leaves \<open>position + length\<close>, the sum as the program
  computes it, between 0 and the length of the buffer.
\<close>

fun readBytes_in_range :: "BinReader \<Rightarrow> read_op \<Rightarrow> bool" where
  "readBytes_in_range r (ReadBytes len) =
     (0 \<le> float64_add (position r) len \<and>
      float64_add (position r) len \<le> int (length (BinReader.buffer r)))"
| "readBytes_in_range r op = True"

fun in_range_run :: "BinReader \<Rightarrow> read_op list \<Rightarrow> bool" where
  "in_range_run r [] = True"
| "in_range_run r (op # ops) =
     (readBytes_in_range r op \<and> in_range_run (snd (call_read r op)) ops)"

text \<open>
  A read that is not a \<open>readBytes\<close> with a negative length; and a read whose length, if
  it takes one, is a number.
\<close>

fun nonneg_length :: "read_op \<Rightarrow> bool" where
  "nonneg_length (ReadBytes len) = (0 \<le> len)"
| "nonneg_length op = True"

fun number_length :: "read_op \<Rightarrow> bool" where
  "number_length (ReadBytes len) = float64_int len"
| "number_length op = True"

text \<open>
  Two readings of "the span from \<open>start\<close> to \<open>end\<close>" of a buffer.  \<open>clamped_span\<close> clamps
  both endpoints to \<open>0 .. length\<close> and takes the bytes at the indices in between.
  \<open>end_relative_span\<close> first counts a negative endpoint from the end of the buffer.
\<close>

definition clamp_index :: "Buffer \<Rightarrow> int \<Rightarrow> nat" where
  "clamp_index buf i = nat (max 0 (min i (int (length buf))))"

definition clamped_span :: "Buffer \<Rightarrow> int \<Rightarrow> int \<Rightarrow> Buffer" where
  "clamped_span buf start end = map (\<lambda>i. buf ! i) [clamp_index buf start ..< clamp_index buf end]"

definition from_end :: "Buffer \<Rightarrow> int \<Rightarrow> int" where
  "from_end buf i = (if i < 0 then int (length buf) + i else i)"

definition end_relative_span :: "Buffer \<Rightarrow> int \<Rightarrow> int \<Rightarrow> Buffer" where
  "end_relative_span buf start end = clamped_span buf (from_end buf start) (from_end buf end)"

section \<open>The value of a double\<close>

text \<open>
  The rational a finite double stands for, from its IEEE-754 binary64 fields: one sign
  bit, eleven exponent bits, 52 fraction bits; \<open>None\<close> for an infinity or a NaN.
  \<open>double_ulp\<close> is the distance to the next double of the same exponent.  A decimal
  literal of the program text denotes the double nearest to it; \<open>number_literal q d\<close>
  says that \<open>d\<close> is less than half a unit in the last place away from \<open>q\<close>.
\<close>

definition double_negative :: "double \<Rightarrow> bool" where
  "double_negative d \<longleftrightarrow> uint (double_bits d) div 2 ^ 63 = 1"

definition double_exponent :: "double \<Rightarrow> int" where
  "double_exponent d = uint (double_bits d) div 2 ^ 52 mod 2 ^ 11"

definition double_fraction :: "double \<Rightarrow> int" where
  "double_fraction d = uint (double_bits d) mod 2 ^ 52"

definition double_ulp :: "double \<Rightarrow> rat" where
  "double_ulp d = 2 powi (max 1 (double_exponent d) - 1075)"

definition double_value :: "double \<Rightarrow> rat option" where
  "double_value d =
     (let significand = (if double_exponent d = 0 then 0 else 2 ^ 52) + double_fraction d;
          magnitude = of_int significand * double_ulp d
      in if double_exponent d = 2047 then None
         else Some (if double_negative d then - magnitude else magnitude))"

definition number_literal :: "rat \<Rightarrow> double \<Rightarrow> bool" where
  "number_literal q d \<longleftrightarrow>
     (case double_value d of None \<Rightarrow> False | Some v \<Rightarrow> 2 * \<bar>v - q\<bar> < double_ulp d)"

section \<open>Properties of float64 sums\<close>

lemma bit_length_0: "bit_length 0 = 0"
  by (simp add: bit_length.simps)

lemma bit_length_floorlog: "bit_length n = floorlog 2 n"
proof (induction n rule: bit_length.induct)
  case (1 n)
  then show ?case
    by (subst bit_length.simps, subst compute_floorlog) simp
qed

lemma bit_length_mono: "m \<le> n \<Longrightarrow> bit_length m \<le> bit_length n"
  by (simp add: bit_length_floorlog floorlog_mono)

lemma bit_length_lower: "0 < n \<Longrightarrow> 2 ^ (bit_length n - 1) \<le> n"
  using floorlog_bounds [of n 2] by (simp add: bit_length_floorlog)

lemma bit_length_upper: "n < 2 ^ bit_length n"
proof (cases "n = 0")
  case True
  then show ?thesis by simp
next
  case False
  then show ?thesis
    using floorlog_bounds [of n 2] by (simp add: bit_length_floorlog)
qed

lemma bit_length_le: "n < 2 ^ k \<Longrightarrow> bit_length n \<le> k"
  by (simp add: bit_length_floorlog floorlog_le_iff)

lemma bit_length_power: "bit_length (2 ^ k) = Suc k"
proof (induction k)
  case 0
  show ?case by (simp add: bit_length.simps [of "Suc 0"] bit_length.simps [of 0])
next
  case (Suc k)
  then show ?case by (simp add: bit_length.simps [of "2 * 2 ^ k"])
qed

lemma float64_ulp_pos: "0 < float64_ulp n"
  by (simp add: float64_ulp_def)

lemma float64_ulp_small: "n < 2 ^ 53 \<Longrightarrow> float64_ulp n = 1"
  using bit_length_le [of n 53] by (simp add: float64_ulp_def)

lemma float64_ulp_dvd_power: "bit_length n - 53 \<le> k \<Longrightarrow> float64_ulp n dvd 2 ^ k"
  by (simp add: float64_ulp_def le_imp_power_dvd)

lemma round_nearest_even_dvd: "float64_ulp n dvd round_nearest_even n"
  by (simp add: round_nearest_even_def Let_def)

lemma round_nearest_even_exact: "float64_ulp n dvd n \<Longrightarrow> round_nearest_even n = n"
  by (auto simp add: round_nearest_even_def Let_def float64_ulp_pos dvd_eq_mod_eq_0)

lemma round_nearest_even_fixed_iff: "round_nearest_even n = n \<longleftrightarrow> float64_ulp n dvd n"
  using round_nearest_even_dvd [of n] round_nearest_even_exact [of n] by auto

lemma round_nearest_even_lower: "n div float64_ulp n * float64_ulp n \<le> round_nearest_even n"
  by (simp add: round_nearest_even_def Let_def)

lemma round_nearest_even_upper:
  "round_nearest_even n \<le> (n div float64_ulp n + 1) * float64_ulp n"
  by (simp add: round_nearest_even_def Let_def)

lemma multiple_le_floor:
  fixes u :: nat
  assumes "u dvd y" and "y \<le> m" and "0 < u"
  shows "y \<le> m div u * u"
proof -
  from assms(1) obtain k where "y = u * k" by (rule dvdE)
  then have y: "y = k * u" by (simp add: mult.commute)
  with assms have "k \<le> m div u" by (simp add: less_eq_div_iff_mult_less_eq)
  then show ?thesis using y by simp
qed

lemma multiple_ge_ceil:
  fixes u :: nat
  assumes "u dvd y" and "q * u < y"
  shows "(q + 1) * u \<le> y"
proof -
  from assms(1) obtain k where "y = u * k" by (rule dvdE)
  then have y: "y = k * u" by (simp add: mult.commute)
  with assms(2) have "q < k" by (cases "u = 0") simp_all
  then have "q + 1 \<le> k" by simp
  then have "(q + 1) * u \<le> k * u" by (rule mult_le_mono1)
  then show ?thesis using y by simp
qed

lemma round_nearest_even_ge:
  assumes rep: "float64_ulp x dvd x" and le: "x \<le> m"
  shows "x \<le> round_nearest_even m"
proof -
  let ?u = "float64_ulp m"
  have "x \<le> m div ?u * ?u"
  proof (cases "bit_length x = bit_length m")
    case True
    then have "?u dvd x" using rep by (simp add: float64_ulp_def)
    then show ?thesis using le by (rule multiple_le_floor) (rule float64_ulp_pos)
  next
    case False
    then have lt: "bit_length x < bit_length m"
      using bit_length_mono [OF le] by simp
    then have m: "0 < m" using le by (cases "m = 0") simp_all
    have "x < 2 ^ bit_length x" by (rule bit_length_upper)
    also have "\<dots> \<le> 2 ^ (bit_length m - 1)"
      using lt by (intro power_increasing) simp_all
    finally have x: "x < 2 ^ (bit_length m - 1)" .
    have "?u dvd 2 ^ (bit_length m - 1)"
      by (rule float64_ulp_dvd_power) simp
    then have "2 ^ (bit_length m - 1) \<le> m div ?u * ?u"
      using bit_length_lower [OF m] by (rule multiple_le_floor) (rule float64_ulp_pos)
    with x show ?thesis by simp
  qed
  also have "\<dots> \<le> round_nearest_even m" by (rule round_nearest_even_lower)
  finally show ?thesis .
qed

lemma round_nearest_even_le_power: "round_nearest_even m \<le> 2 ^ bit_length m"
proof -
  let ?u = "float64_ulp m"
  have "?u dvd 2 ^ bit_length m"
    by (rule float64_ulp_dvd_power) simp
  moreover have "m div ?u * ?u < 2 ^ bit_length m"
    using bit_length_upper [of m] div_times_less_eq_dividend [of m ?u] by (rule_tac le_less_trans)
  ultimately have "(m div ?u + 1) * ?u \<le> 2 ^ bit_length m"
    by (rule multiple_ge_ceil)
  with round_nearest_even_upper [of m] show ?thesis by (rule order_trans)
qed

lemma round_nearest_even_le:
  assumes rep: "float64_ulp y dvd y" and le: "m \<le> y"
  shows "round_nearest_even m \<le> y"
proof (cases "float64_ulp m dvd m")
  case True
  then show ?thesis using le by (simp add: round_nearest_even_exact)
next
  case False
  let ?u = "float64_ulp m"
  show ?thesis
  proof (cases "bit_length y = bit_length m")
    case True
    then have u: "?u dvd y" using rep by (simp add: float64_ulp_def)
    have "m \<noteq> y" using False u by auto
    then have "m < y" using le by simp
    then have "m div ?u * ?u < y"
      using div_times_less_eq_dividend [of m ?u] by (rule_tac le_less_trans)
    with u have "(m div ?u + 1) * ?u \<le> y" by (rule multiple_ge_ceil)
    with round_nearest_even_upper [of m] show ?thesis by (rule order_trans)
  next
    case False
    then have lt: "bit_length m < bit_length y"
      using bit_length_mono [OF le] by simp
    then have y: "0 < y" by (cases "y = 0") (simp_all add: bit_length_0)
    have "round_nearest_even m \<le> 2 ^ bit_length m" by (rule round_nearest_even_le_power)
    also have "\<dots> \<le> 2 ^ (bit_length y - 1)"
      using lt by (intro power_increasing) simp_all
    also have "\<dots> \<le> y" using y by (rule bit_length_lower)
    finally show ?thesis .
  qed
qed

lemma float64_ulp_round: "float64_ulp (round_nearest_even m) dvd round_nearest_even m"
proof (cases "round_nearest_even m < 2 ^ bit_length m")
  case True
  then have "bit_length (round_nearest_even m) \<le> bit_length m" by (rule bit_length_le)
  then have "float64_ulp (round_nearest_even m) dvd float64_ulp m"
    by (simp add: float64_ulp_def le_imp_power_dvd)
  then show ?thesis using round_nearest_even_dvd [of m] by (rule dvd_trans)
next
  case False
  then have eq: "round_nearest_even m = 2 ^ bit_length m"
    using round_nearest_even_le_power [of m] by simp
  show ?thesis
    unfolding eq by (rule float64_ulp_dvd_power) (simp add: bit_length_power)
qed

lemma float64_round_minus: "float64_round (- x) = - float64_round x"
  by (simp add: float64_round_def sgn_minus)

lemma float64_round_nonneg: "0 \<le> x \<Longrightarrow>
    float64_round x = int (min (round_nearest_even (nat x)) float64_infinity)"
  by (cases "x = 0") (simp_all add: float64_round_def round_nearest_even_def)

lemma float64_round_sign: "0 \<le> x \<Longrightarrow> 0 \<le> float64_round x"
  by (simp add: float64_round_nonneg)

lemma safe_less_infinity: "(2::nat) ^ 54 \<le> float64_infinity"
  unfolding float64_infinity_def by (rule power_increasing) simp_all

lemma round_nearest_even_power: "round_nearest_even (2 ^ k) = 2 ^ k"
  by (rule round_nearest_even_exact, rule float64_ulp_dvd_power) (simp add: bit_length_power)

lemma round_nearest_even_infinity: "round_nearest_even float64_infinity = float64_infinity"
  by (simp only: float64_infinity_def round_nearest_even_power)

lemma safe_less_infinity_int: "(2::int) ^ 54 \<le> int float64_infinity"
  using safe_less_infinity by (simp add: le_nat_iff flip: nat_le_iff)

lemma float64_int_nonneg:
  assumes "0 \<le> x"
  shows "float64_int x \<longleftrightarrow> float64_ulp (nat x) dvd nat x \<and> nat x \<le> float64_infinity"
proof -
  let ?n = "nat x"
  have "float64_int x \<longleftrightarrow> min (round_nearest_even ?n) float64_infinity = ?n"
    using assms by (simp add: float64_int_def float64_round_nonneg) linarith
  also have "\<dots> \<longleftrightarrow> round_nearest_even ?n = ?n \<and> ?n \<le> float64_infinity"
  proof (cases "?n = float64_infinity")
    case True
    then show ?thesis by (simp add: round_nearest_even_infinity)
  next
    case False
    then show ?thesis by (auto simp add: min_def)
  qed
  finally show ?thesis by (simp add: round_nearest_even_fixed_iff)
qed

lemma float64_int_minus: "float64_int (- x) \<longleftrightarrow> float64_int x"
  by (auto simp add: float64_int_def float64_round_minus)

lemma float64_round_safe: "\<bar>x\<bar> < 2 ^ 53 \<Longrightarrow> float64_round x = x"
proof -
  assume a: "\<bar>x\<bar> < 2 ^ 53"
  then have n: "nat \<bar>x\<bar> < 2 ^ 53" by (simp add: nat_less_iff)
  then have "round_nearest_even (nat \<bar>x\<bar>) = nat \<bar>x\<bar>"
    by (intro round_nearest_even_exact) (simp add: float64_ulp_small)
  then have "min (round_nearest_even (nat \<bar>x\<bar>)) float64_infinity = nat \<bar>x\<bar>"
    using n safe_less_infinity by simp
  then have "float64_round x = sgn x * \<bar>x\<bar>"
    by (simp add: float64_round_def)
  then show ?thesis by (simp add: mult_sgn_abs)
qed

lemma float64_round_ge_nonneg:
  assumes "float64_int x" and "0 \<le> x" and "x \<le> z"
  shows "x \<le> float64_round z"
proof -
  from assms have z: "0 \<le> z" by simp
  from assms(1,2) have rep: "float64_ulp (nat x) dvd nat x" and b: "nat x \<le> float64_infinity"
    by (simp_all add: float64_int_nonneg)
  have "nat x \<le> round_nearest_even (nat z)"
    using rep by (rule round_nearest_even_ge) (use assms(3) in simp)
  with b have "nat x \<le> min (round_nearest_even (nat z)) float64_infinity" by simp
  then have "x \<le> int (min (round_nearest_even (nat z)) float64_infinity)"
    using assms(2) by (simp only: nat_le_iff)
  then show ?thesis
    using z by (simp only: float64_round_nonneg)
qed

lemma float64_round_le_nonneg:
  assumes "float64_int y" and "0 \<le> z" and "z \<le> y"
  shows "float64_round z \<le> y"
proof -
  from assms have y: "0 \<le> y" by simp
  with assms(1) have rep: "float64_ulp (nat y) dvd nat y"
    by (simp add: float64_int_nonneg)
  have "round_nearest_even (nat z) \<le> nat y"
    using rep by (rule round_nearest_even_le) (use assms(3) in simp)
  then have "min (round_nearest_even (nat z)) float64_infinity \<le> nat y" by simp
  then have "int (min (round_nearest_even (nat z)) float64_infinity) \<le> y"
    using y by (simp only: le_nat_iff)
  then show ?thesis
    using assms(2) by (simp only: float64_round_nonneg)
qed

lemma float64_round_ge:
  assumes "float64_int x" and "x \<le> z"
  shows "x \<le> float64_round z"
proof (cases "0 \<le> z")
  case True
  show ?thesis
  proof (cases "0 \<le> x")
    case True
    with assms show ?thesis by (intro float64_round_ge_nonneg)
  next
    case False
    then show ?thesis using float64_round_sign [OF \<open>0 \<le> z\<close>] by simp
  qed
next
  case False
  then have "float64_round (- z) \<le> - x"
    using assms by (intro float64_round_le_nonneg) (simp_all add: float64_int_minus)
  then show ?thesis by (simp add: float64_round_minus)
qed

lemma float64_round_le:
  assumes "float64_int y" and "z \<le> y"
  shows "float64_round z \<le> y"
proof -
  have "- y \<le> float64_round (- z)"
    using assms by (intro float64_round_ge) (simp_all add: float64_int_minus)
  then show ?thesis by (simp add: float64_round_minus)
qed

lemma float64_int_round: "float64_int (float64_round z)"
proof -
  have nonneg: "float64_int (float64_round z)" if "0 \<le> z" for z
  proof -
    let ?m = "nat z"
    have "float64_ulp (min (round_nearest_even ?m) float64_infinity)
        dvd min (round_nearest_even ?m) float64_infinity"
    proof (cases "round_nearest_even ?m \<le> float64_infinity")
      case True
      then show ?thesis by (simp add: float64_ulp_round min_def)
    next
      case False
      then have "min (round_nearest_even ?m) float64_infinity = float64_infinity" by (simp add: min_def)
      then show ?thesis
        using round_nearest_even_infinity by (simp add: round_nearest_even_fixed_iff)
    qed
    then show ?thesis
      using that by (simp add: float64_int_nonneg float64_round_sign)
        (simp add: float64_round_nonneg)
  qed
  show ?thesis
  proof (cases "0 \<le> z")
    case True
    then show ?thesis by (rule nonneg)
  next
    case False
    then have "float64_int (float64_round (- z))" by (intro nonneg) simp
    then show ?thesis by (simp add: float64_round_minus float64_int_minus)
  qed
qed

lemma float64_int_safe: "\<bar>x\<bar> < 2 ^ 53 \<Longrightarrow> float64_int x"
  by (simp add: float64_int_def float64_round_safe)

lemma float64_add_safe:
  assumes "\<bar>a\<bar> < 2 ^ 53" and "\<bar>a + b\<bar> < 2 ^ 53"
  shows "float64_add a b = a + b"
proof -
  note big = safe_less_infinity_int
  from assms have "\<bar>a\<bar> < 2 ^ 54" and "\<bar>b\<bar> < 2 ^ 54" by simp_all
  with big have "\<not> int float64_infinity \<le> \<bar>a\<bar>" and "\<not> int float64_infinity \<le> \<bar>b\<bar>" by linarith+
  then show ?thesis
    using assms(2) by (simp add: float64_add_def float64_round_safe)
qed

lemma float64_add_ge:
  assumes "float64_int a" and "0 \<le> b"
  shows "a \<le> float64_add a b"
proof -
  have "a \<le> b" if "\<not> int float64_infinity \<le> \<bar>a\<bar>" and "int float64_infinity \<le> \<bar>b\<bar>"
    using that assms(2) by simp
  moreover have "a \<le> float64_round (a + b)"
    using assms by (intro float64_round_ge) simp_all
  ultimately show ?thesis
    using assms(2) by (auto simp add: float64_add_def)
qed

lemma float64_add_le:
  assumes "float64_int a" and "b \<le> 0"
  shows "float64_add a b \<le> a"
proof -
  have "b \<le> a" if "\<not> int float64_infinity \<le> \<bar>a\<bar>" and "int float64_infinity \<le> \<bar>b\<bar>"
    using that assms(2) by simp
  moreover have "float64_round (a + b) \<le> a"
    using assms by (intro float64_round_le) simp_all
  ultimately show ?thesis
    using assms(2) by (auto simp add: float64_add_def)
qed

lemma float64_int_add:
  assumes "float64_int a" and "float64_int b"
  shows "float64_int (float64_add a b)"
  using assms by (simp add: float64_add_def float64_int_round)

lemma float64_add_0_left: "float64_add 0 b = b"
  by (simp add: float64_add_def)

lemma float64_add_0_right: "float64_add a 0 = a"
  by (simp add: float64_add_def)

section \<open>Properties of the \<open>Buffer\<close> accessors\<close>

lemma length_le_bytes: "length (le_bytes w v) = w"
  by (induction w arbitrary: v) simp_all

lemma le_uint_le_bytes: "le_uint (le_bytes w v) = v mod 2 ^ (8 * w)"
proof (induction w arbitrary: v)
  case 0
  show ?case by simp
next
  case (Suc w)
  have "le_uint (le_bytes (Suc w) v) = v mod 2 ^ 8 + 2 ^ 8 * (v div 2 ^ 8 mod 2 ^ (8 * w))"
    by (simp add: Suc uint_word_of_int)
  also have "\<dots> = v mod (2 ^ 8 * 2 ^ (8 * w))"
    using mod_mult2_eq' [of v "2 ^ 8" "2 ^ (8 * w)"] by simp
  also have "\<dots> = v mod 2 ^ (8 * Suc w)"
    by (simp add: power_add)
  finally show ?case .
qed

lemma nth_le_bytes: "i < w \<Longrightarrow> uint (le_bytes w v ! i) = v div 2 ^ (8 * i) mod 2 ^ 8"
proof (induction w arbitrary: v i)
  case 0
  then show ?case by simp
next
  case (Suc w)
  show ?case
  proof (cases i)
    case 0
    then show ?thesis by (simp add: uint_word_of_int)
  next
    case (Suc j)
    have "v div 2 ^ 8 div 2 ^ (8 * j) = v div (2 ^ 8 * 2 ^ (8 * j))"
      by (simp add: zdiv_zmult2_eq)
    also have "\<dots> = v div 2 ^ (8 * Suc j)"
      by (simp add: power_add)
    finally show ?thesis
      using Suc Suc.prems Suc.IH [of j "v div 2 ^ 8"] by simp
  qed
qed

lemma read_field_eq:
  "0 < w \<Longrightarrow> read_field w buf off =
     (if 0 \<le> off \<and> off + int w \<le> int (length buf)
      then Inr (take w (drop (nat off) buf))
      else Inl (boundsError off (int (length buf) - int w)))"
  by (auto simp: read_field_def Buffer_at_def)

lemma store_field_alloc: "store_field (Buffer_alloc w) 0 (le_bytes w v) = le_bytes w v"
  by (simp add: store_field_def Buffer_alloc_def length_le_bytes)

lemma write_int_alloc:
  "0 < w \<Longrightarrow> write_int w (Buffer_alloc w) v 0 mn mx =
     (if v > mx \<or> v < mn then Inl (ERR_OUT_OF_RANGE ''value'') else Inr (le_bytes w v))"
  by (simp add: write_int_def Buffer_at_def store_field_alloc) (simp add: Buffer_alloc_def)

lemma write_bits_alloc:
  "0 < w \<Longrightarrow> write_bits w (Buffer_alloc w) v 0 = Inr (le_bytes w v)"
  by (simp add: write_bits_def Buffer_at_def store_field_alloc) (simp add: Buffer_alloc_def)

lemma to_signed_mod:
  "0 < bits \<Longrightarrow> - (2 ^ (bits - 1)) \<le> v \<Longrightarrow> v < 2 ^ (bits - 1) \<Longrightarrow> to_signed bits (v mod 2 ^ bits) = v"
proof -
  assume b: "0 < bits" and lo: "- (2 ^ (bits - 1)) \<le> v" and hi: "v < 2 ^ (bits - 1)"
  have p: "(2::int) ^ bits = 2 * 2 ^ (bits - 1)"
    using b by (cases bits) simp_all
  show ?thesis
  proof (cases "0 \<le> v")
    case True
    then have "v mod 2 ^ bits = v" using hi p by simp
    then show ?thesis using hi by (simp add: to_signed_def)
  next
    case False
    then have "(v + 2 ^ bits) mod 2 ^ bits = v + 2 ^ bits"
      using lo p by (intro mod_pos_pos_trivial) simp_all
    then have "v mod 2 ^ bits = v + 2 ^ bits"
      by simp
    then show ?thesis using lo p False by (simp add: to_signed_def)
  qed
qed

section \<open>Every call in closed form\<close>

lemmas reader_defs =
  readUInt8_def readUInt16_def readUInt32_def readInt8_def readInt16_def readInt32_def
  readFloat32_def readDouble_def
  Buffer_readUInt8_def Buffer_readUInt16LE_def Buffer_readUInt32LE_def Buffer_readInt8_def
  Buffer_readInt16LE_def Buffer_readInt32LE_def Buffer_readFloatLE_def Buffer_readDoubleLE_def

lemmas writer_defs =
  writeUInt8_def writeUInt16_def writeUInt32_def writeInt8_def writeInt16_def writeInt32_def
  writeFloat32_def writeDouble_def writeBytes_def
  Buffer_writeUInt8_def Buffer_writeUInt16LE_def Buffer_writeUInt32LE_def Buffer_writeInt8_def
  Buffer_writeInt16LE_def Buffer_writeInt32LE_def Buffer_writeFloatLE_def Buffer_writeDoubleLE_def

lemma call_read_fixed:
  "fixed_width op \<Longrightarrow> call_read r op =
     (if 0 \<le> position r \<and> position r + read_width op \<le> int (length (BinReader.buffer r))
      then (Inr (decode_field op (take (nat (read_width op)) (drop (nat (position r)) (BinReader.buffer r)))),
            r\<lparr>position := position r + read_width op\<rparr>)
      else (Inl (boundsError (position r) (int (length (BinReader.buffer r)) - read_width op)), r))"
  by (cases op) (simp_all add: reader_defs read_field_eq)

lemma length_field_bytes: "length (field_bytes op) = write_width op"
  by (cases op) (simp_all only: field_bytes.simps write_width.simps length_le_bytes)

lemma call_write_eq:
  "call_write s op =
     (if representable op
      then (Inr (), s\<lparr>BinWriter.buffer := BinWriter.buffer s @ field_bytes op\<rparr>)
      else (Inl (ERR_OUT_OF_RANGE ''value''), s))"
  by (cases op) (auto simp add: writer_defs write_int_alloc write_bits_alloc Buffer_concat_def
       simp del: le_bytes.simps)

lemma le_bytes_1: "le_bytes (Suc 0) v = [word_of_int v]"
  by simp

lemma le_bytes_2: "le_bytes 2 v = [word_of_int v, word_of_int (v div 2 ^ 8)]"
  by (simp add: numeral_2_eq_2)

lemma le_bytes_4:
  "le_bytes 4 v =
     [word_of_int v, word_of_int (v div 2 ^ 8), word_of_int (v div 2 ^ 8 div 2 ^ 8),
      word_of_int (v div 2 ^ 8 div 2 ^ 8 div 2 ^ 8)]"
  by (simp add: eval_nat_numeral)

lemma le_bytes_8:
  "le_bytes 8 v =
     [word_of_int v, word_of_int (v div 2 ^ 8), word_of_int (v div 2 ^ 8 div 2 ^ 8),
      word_of_int (v div 2 ^ 8 div 2 ^ 8 div 2 ^ 8),
      word_of_int (v div 2 ^ 8 div 2 ^ 8 div 2 ^ 8 div 2 ^ 8),
      word_of_int (v div 2 ^ 8 div 2 ^ 8 div 2 ^ 8 div 2 ^ 8 div 2 ^ 8),
      word_of_int (v div 2 ^ 8 div 2 ^ 8 div 2 ^ 8 div 2 ^ 8 div 2 ^ 8 div 2 ^ 8),
      word_of_int (v div 2 ^ 8 div 2 ^ 8 div 2 ^ 8 div 2 ^ 8 div 2 ^ 8 div 2 ^ 8 div 2 ^ 8)]"
  by (simp add: eval_nat_numeral)

lemmas le_bytes_unfold = le_bytes_1 le_bytes_2 le_bytes_4 le_bytes_8

lemma decode_field_bytes:
  "representable op \<Longrightarrow> decode_field (corresponding_read op) (field_bytes op) = written_value op"
proof (cases op)
  case (WriteInt8 v)
  assume "representable op"
  with WriteInt8 show ?thesis
    using to_signed_mod [of 8 v] by (simp add: le_uint_le_bytes del: le_bytes.simps)
next
  case (WriteInt16 v)
  assume "representable op"
  with WriteInt16 show ?thesis
    using to_signed_mod [of 16 v] by (simp add: le_uint_le_bytes del: le_bytes.simps)
next
  case (WriteInt32 v)
  assume "representable op"
  with WriteInt32 show ?thesis
    using to_signed_mod [of 32 v] by (simp add: le_uint_le_bytes del: le_bytes.simps)
next
  case (WriteFloat32 v)
  have "uint (float32_bits v) mod 2 ^ 32 = uint (float32_bits v)"
    using uint_bounded [of "float32_bits v"] by simp
  with WriteFloat32 show ?thesis
    by (simp add: le_uint_le_bytes del: le_bytes.simps)
next
  case (WriteDouble v)
  have "uint (double_bits v) mod 2 ^ 64 = uint (double_bits v)"
    using uint_bounded [of "double_bits v"] by simp
  with WriteDouble show ?thesis
    by (simp add: le_uint_le_bytes del: le_bytes.simps)
qed (simp_all add: le_uint_le_bytes del: le_bytes.simps)

lemma subarray_whole: "Buffer_subarray bs 0 (int (length bs)) = bs"
  by (simp add: Buffer_subarray_def adjustOffset_def Let_def)

section \<open>Round trip\<close>

text \<open>
  C1: for every supported type (uint8, int8, uint16, int16, uint32, int32, float32, double,
  byte span) and every value representable in it, writing the value with a fresh
  \<open>BinWriter\<close> succeeds, and the corresponding single read on a \<open>BinReader\<close> over the
  writer's buffer returns the value unchanged: the same integer, the same bit pattern
  for the floating-point types, the same bytes for a span.
\<close>

theorem write_then_read_roundtrip:
  assumes "representable op"
  shows "\<exists>s. call_write new_BinWriter op = (Inr (), s) \<and>
           fst (call_read (new_BinReader (BinWriter.buffer s)) (corresponding_read op))
             = Inr (written_value op)"
proof (cases "fixed_width (corresponding_read op)")
  case True
  have w: "read_width (corresponding_read op) = int (write_width op)"
    using True by (cases op) simp_all
  show ?thesis
    using assms True decode_field_bytes [OF assms]
    by (simp add: call_write_eq call_read_fixed new_BinReader_def new_BinWriter_def
        Buffer_alloc_def w length_field_bytes)
next
  case False
  then obtain bs where "op = WriteBytes bs" by (cases op) simp_all
  then show ?thesis
    by (simp add: call_write_eq new_BinWriter_def Buffer_alloc_def new_BinReader_def
        readBytes_def float64_add_0_left subarray_whole)
qed

text \<open>The round trip at \<open>writeInt16(-2)\<close>, with the two bytes in between.\<close>

theorem write_then_read_roundtrip_witness:
  "representable (WriteInt16 (- 2)) \<and>
   call_write new_BinWriter (WriteInt16 (- 2)) = (Inr (), \<lparr>BinWriter.buffer = [0xFE, 0xFF]\<rparr>) \<and>
   fst (call_read (new_BinReader [0xFE, 0xFF]) ReadInt16) = Inr (IntValue (- 2))"
proof -
  have r: "representable (WriteInt16 (- 2))" by simp
  have w: "call_write new_BinWriter (WriteInt16 (- 2)) = (Inr (), \<lparr>BinWriter.buffer = [0xFE, 0xFF]\<rparr>)"
    by (simp add: call_write_eq new_BinWriter_def Buffer_alloc_def le_bytes_unfold
        del: le_bytes.simps)
  show ?thesis
    using r w write_then_read_roundtrip [OF r] by simp
qed

section \<open>Concrete encodings\<close>

lemmas double_value_defs =
  number_literal_def double_value_def double_ulp_def double_exponent_def
  double_fraction_def double_negative_def power_int_def power_divide

text \<open>
  C9: \<open>writeInt8(2)\<close> on a fresh \<open>BinWriter\<close> appends the single byte \<open>0x02\<close> (the
  comment above the method prints \<open>01\<close>; the code stores \<open>02\<close>), and \<open>writeInt8(-2)\<close>
  appends the single byte \<open>0xFE\<close>.
\<close>

theorem writeInt8_example:
  "writeInt8 new_BinWriter 2 = (Inr (), \<lparr>BinWriter.buffer = [0x02]\<rparr>) \<and>
   writeInt8 new_BinWriter (- 2) = (Inr (), \<lparr>BinWriter.buffer = [0xFE]\<rparr>)"
  using call_write_eq [of new_BinWriter "WriteInt8 2"]
    call_write_eq [of new_BinWriter "WriteInt8 (- 2)"]
  by (simp add: new_BinWriter_def Buffer_alloc_def le_bytes_unfold del: le_bytes.simps)

text \<open>
  C8: \<open>writeUInt32(0xFEEDFACE)\<close> on a fresh writer gives the bytes \<open>CE FA ED FE\<close>;
  \<open>writeDouble(123.456)\<close> gives \<open>77 BE 9F 1A 2F DD 5E 40\<close>, where the double that the
  literal \<open>123.456\<close> denotes has the bit pattern \<open>0x405EDD2F1A9FBE77\<close>; a reader over
  \<open>[0x04, 0x03]\<close> returns 772 from \<open>readInt16\<close>; and each of the eight fixed-width reads
  on a reader over an empty buffer, wherever its \<open>position\<close> is, fails with an
  \<open>OutOfBounds\<close> error and leaves the reader as it was.
\<close>

theorem concrete_encodings:
  "writeUInt32 new_BinWriter 0xFEEDFACE
     = (Inr (), \<lparr>BinWriter.buffer = [0xCE, 0xFA, 0xED, 0xFE]\<rparr>) \<and>
   number_literal (123456 / 1000) (Double 0x405EDD2F1A9FBE77) \<and>
   writeDouble new_BinWriter (Double 0x405EDD2F1A9FBE77)
     = (Inr (), \<lparr>BinWriter.buffer = [0x77, 0xBE, 0x9F, 0x1A, 0x2F, 0xDD, 0x5E, 0x40]\<rparr>) \<and>
   fst (readInt16 (new_BinReader [0x04, 0x03])) = Inr 772 \<and>
   OutOfBounds ERR_BUFFER_OUT_OF_BOUNDS \<and>
   readUInt8 \<lparr>BinReader.buffer = [], position = p\<rparr>
     = (Inl ERR_BUFFER_OUT_OF_BOUNDS, \<lparr>BinReader.buffer = [], position = p\<rparr>) \<and>
   readInt8 \<lparr>BinReader.buffer = [], position = p\<rparr>
     = (Inl ERR_BUFFER_OUT_OF_BOUNDS, \<lparr>BinReader.buffer = [], position = p\<rparr>) \<and>
   readUInt16 \<lparr>BinReader.buffer = [], position = p\<rparr>
     = (Inl ERR_BUFFER_OUT_OF_BOUNDS, \<lparr>BinReader.buffer = [], position = p\<rparr>) \<and>
   readInt16 \<lparr>BinReader.buffer = [], position = p\<rparr>
     = (Inl ERR_BUFFER_OUT_OF_BOUNDS, \<lparr>BinReader.buffer = [], position = p\<rparr>) \<and>
   readUInt32 \<lparr>BinReader.buffer = [], position = p\<rparr>
     = (Inl ERR_BUFFER_OUT_OF_BOUNDS, \<lparr>BinReader.buffer = [], position = p\<rparr>) \<and>
   readInt32 \<lparr>BinReader.buffer = [], position = p\<rparr>
     = (Inl ERR_BUFFER_OUT_OF_BOUNDS, \<lparr>BinReader.buffer = [], position = p\<rparr>) \<and>
   readFloat32 \<lparr>BinReader.buffer = [], position = p\<rparr>
     = (Inl ERR_BUFFER_OUT_OF_BOUNDS, \<lparr>BinReader.buffer = [], position = p\<rparr>) \<and>
   readDouble \<lparr>BinReader.buffer = [], position = p\<rparr>
     = (Inl ERR_BUFFER_OUT_OF_BOUNDS, \<lparr>BinReader.buffer = [], position = p\<rparr>)"
proof -
  have u32: "writeUInt32 new_BinWriter 0xFEEDFACE
      = (Inr (), \<lparr>BinWriter.buffer = [0xCE, 0xFA, 0xED, 0xFE]\<rparr>)"
    using call_write_eq [of new_BinWriter "WriteUInt32 0xFEEDFACE"]
    by (simp add: new_BinWriter_def Buffer_alloc_def le_bytes_unfold del: le_bytes.simps)
  have lit: "number_literal (123456 / 1000) (Double 0x405EDD2F1A9FBE77)"
    by (simp add: double_value_defs)
  have dbl: "writeDouble new_BinWriter (Double 0x405EDD2F1A9FBE77)
      = (Inr (), \<lparr>BinWriter.buffer = [0x77, 0xBE, 0x9F, 0x1A, 0x2F, 0xDD, 0x5E, 0x40]\<rparr>)"
    using call_write_eq [of new_BinWriter "WriteDouble (Double 0x405EDD2F1A9FBE77)"]
    by (simp add: new_BinWriter_def Buffer_alloc_def le_bytes_unfold del: le_bytes.simps)
  have i16: "fst (readInt16 (new_BinReader [0x04, 0x03])) = Inr 772"
    by (simp add: readInt16_def Buffer_readInt16LE_def read_field_eq new_BinReader_def
        to_signed_def)
  have oob: "OutOfBounds ERR_BUFFER_OUT_OF_BOUNDS"
    by (simp add: OutOfBounds_def)
  have empty: "readUInt8 \<lparr>BinReader.buffer = [], position = p\<rparr>
     = (Inl ERR_BUFFER_OUT_OF_BOUNDS, \<lparr>BinReader.buffer = [], position = p\<rparr>)"
    "readInt8 \<lparr>BinReader.buffer = [], position = p\<rparr>
     = (Inl ERR_BUFFER_OUT_OF_BOUNDS, \<lparr>BinReader.buffer = [], position = p\<rparr>)"
    "readUInt16 \<lparr>BinReader.buffer = [], position = p\<rparr>
     = (Inl ERR_BUFFER_OUT_OF_BOUNDS, \<lparr>BinReader.buffer = [], position = p\<rparr>)"
    "readInt16 \<lparr>BinReader.buffer = [], position = p\<rparr>
     = (Inl ERR_BUFFER_OUT_OF_BOUNDS, \<lparr>BinReader.buffer = [], position = p\<rparr>)"
    "readUInt32 \<lparr>BinReader.buffer = [], position = p\<rparr>
     = (Inl ERR_BUFFER_OUT_OF_BOUNDS, \<lparr>BinReader.buffer = [], position = p\<rparr>)"
    "readInt32 \<lparr>BinReader.buffer = [], position = p\<rparr>
     = (Inl ERR_BUFFER_OUT_OF_BOUNDS, \<lparr>BinReader.buffer = [], position = p\<rparr>)"
    "readFloat32 \<lparr>BinReader.buffer = [], position = p\<rparr>
     = (Inl ERR_BUFFER_OUT_OF_BOUNDS, \<lparr>BinReader.buffer = [], position = p\<rparr>)"
    "readDouble \<lparr>BinReader.buffer = [], position = p\<rparr>
     = (Inl ERR_BUFFER_OUT_OF_BOUNDS, \<lparr>BinReader.buffer = [], position = p\<rparr>)"
    by (simp_all add: reader_defs read_field_eq boundsError_def)
  show ?thesis
    using u32 lit dbl i16 oob empty by (intro conjI)
qed

section \<open>Bounds of the fixed-width reads\<close>

lemma boundsError_OutOfBounds: "OutOfBounds (boundsError v len)"
  by (simp add: boundsError_def OutOfBounds_def)

text \<open>
  C2 as stated says that a fixed-width read succeeds whenever \<open>position + w\<close> does not
  exceed the length of the buffer.  \<open>readBytes(-1)\<close> on a fresh reader over one byte
  leaves \<open>position\<close> at \<open>-1\<close>; there \<open>position + 1 \<le> length\<close>, and \<open>readUInt8\<close> throws.
\<close>

theorem fixed_read_negative_position_counterexample:
  "snd (readBytes (new_BinReader [0x01]) (- 1)) = \<lparr>BinReader.buffer = [0x01], position = - 1\<rparr> \<and>
   position \<lparr>BinReader.buffer = [0x01], position = - 1\<rparr> + 1
     \<le> int (length (BinReader.buffer \<lparr>BinReader.buffer = [0x01], position = - 1\<rparr>)) \<and>
   readUInt8 \<lparr>BinReader.buffer = [0x01], position = - 1\<rparr>
     = (Inl (ERR_OUT_OF_RANGE ''offset''), \<lparr>BinReader.buffer = [0x01], position = - 1\<rparr>)"
  by (simp add: readBytes_def new_BinReader_def readUInt8_def Buffer_readUInt8_def
      read_field_eq boundsError_def float64_add_0_left)

text \<open>
  C2, amended: for every fixed-width read of width \<open>w\<close> and every reader state, if
  \<open>position\<close> is negative or \<open>position + w\<close> exceeds the length of the buffer, the read
  fails with an \<open>OutOfBounds\<close> error, returns no value and leaves the reader (so
  \<open>position\<close>) as it was; otherwise it succeeds and advances \<open>position\<close> by \<open>w\<close>.
\<close>

theorem fixed_read_bounds:
  assumes "fixed_width op"
  shows "(position r < 0 \<or> int (length (BinReader.buffer r)) < position r + read_width op \<longrightarrow>
            (\<exists>e. call_read r op = (Inl e, r) \<and> OutOfBounds e)) \<and>
         (0 \<le> position r \<and> position r + read_width op \<le> int (length (BinReader.buffer r)) \<longrightarrow>
            (\<exists>v. call_read r op = (Inr v, r\<lparr>position := position r + read_width op\<rparr>)))"
  using assms by (auto simp add: call_read_fixed boundsError_OutOfBounds)

text \<open>\<open>readUInt16\<close> over \<open>[0x04, 0x03]\<close>, at \<open>position\<close> 0 and at \<open>position\<close> 1.\<close>

theorem fixed_read_bounds_witness:
  "fixed_width ReadUInt16 \<and>
   call_read \<lparr>BinReader.buffer = [0x04, 0x03], position = 0\<rparr> ReadUInt16
     = (Inr (IntValue 772), \<lparr>BinReader.buffer = [0x04, 0x03], position = 2\<rparr>) \<and>
   (\<exists>e. call_read \<lparr>BinReader.buffer = [0x04, 0x03], position = 1\<rparr> ReadUInt16
           = (Inl e, \<lparr>BinReader.buffer = [0x04, 0x03], position = 1\<rparr>) \<and> OutOfBounds e)"
proof -
  have f: "fixed_width ReadUInt16" by simp
  have ok: "call_read \<lparr>BinReader.buffer = [0x04, 0x03], position = 0\<rparr> ReadUInt16
      = (Inr (IntValue 772), \<lparr>BinReader.buffer = [0x04, 0x03], position = 2\<rparr>)"
    by (simp add: call_read_fixed del: call_read.simps)
  show ?thesis
    using f ok
      fixed_read_bounds [OF f, of "\<lparr>BinReader.buffer = [0x04, 0x03], position = 0\<rparr>"]
      fixed_read_bounds [OF f, of "\<lparr>BinReader.buffer = [0x04, 0x03], position = 1\<rparr>"]
    by simp
qed

section \<open>Range of the integer writes\<close>

text \<open>
  C3 as stated says that a value outside the range of the width is truncated to its
  low-order bits.  \<open>writeUInt8(256)\<close> and \<open>writeInt16(32768)\<close> throw \<open>ERR_OUT_OF_RANGE\<close>
  and append nothing.
\<close>

theorem write_out_of_range_counterexample:
  "writeUInt8 new_BinWriter 256 = (Inl (ERR_OUT_OF_RANGE ''value''), new_BinWriter) \<and>
   writeInt16 new_BinWriter 32768 = (Inl (ERR_OUT_OF_RANGE ''value''), new_BinWriter)"
  using call_write_eq [of new_BinWriter "WriteUInt8 256"]
    call_write_eq [of new_BinWriter "WriteInt16 32768"]
  by simp

text \<open>
  C3, amended, for integer values of the integer writes: every write of a value
  representable in its type succeeds and appends a chunk of exactly the width of the
  type, and the chunk is the exact little-endian encoding.  For an integer write byte
  \<open>i\<close> of the chunk is \<open>value div 2 ^ (8 * i) mod 2 ^ 8\<close> (two's complement for a negative
  value); for \<open>writeFloat32\<close> and \<open>writeDouble\<close> byte \<open>i\<close> is that byte of the IEEE-754 bit
  pattern of the value; for \<open>writeBytes\<close> the chunk is the span given.  An integer write
  of an integer outside the range of its type fails with \<open>ERR_OUT_OF_RANGE\<close> and leaves the
  buffer as it was: out-of-range integers are not truncated to their low-order bits.
\<close>

theorem write_range:
  "(representable op \<longrightarrow>
      (\<exists>chunk. call_write s op = (Inr (), s\<lparr>BinWriter.buffer := BinWriter.buffer s @ chunk\<rparr>) \<and>
         length chunk = write_width op \<and>
         (\<forall>v. written_value op = IntValue v \<longrightarrow>
            (\<forall>i < write_width op. uint (chunk ! i) = v div 2 ^ (8 * i) mod 2 ^ 8)) \<and>
         (\<forall>f. written_value op = Float32Value f \<longrightarrow>
            (\<forall>i < write_width op.
               uint (chunk ! i) = uint (float32_bits f) div 2 ^ (8 * i) mod 2 ^ 8)) \<and>
         (\<forall>d. written_value op = DoubleValue d \<longrightarrow>
            (\<forall>i < write_width op.
               uint (chunk ! i) = uint (double_bits d) div 2 ^ (8 * i) mod 2 ^ 8)) \<and>
         (\<forall>bs. written_value op = BytesValue bs \<longrightarrow> chunk = bs))) \<and>
   (\<not> representable op \<longrightarrow> call_write s op = (Inl (ERR_OUT_OF_RANGE ''value''), s))"
proof -
  have ints: "\<forall>i < write_width op. uint (field_bytes op ! i) = v div 2 ^ (8 * i) mod 2 ^ 8"
    if "written_value op = IntValue v" for v
    using that by (cases op) (simp_all add: nth_le_bytes del: le_bytes.simps)
  have floats: "\<forall>i < write_width op.
      uint (field_bytes op ! i) = uint (float32_bits f) div 2 ^ (8 * i) mod 2 ^ 8"
    if "written_value op = Float32Value f" for f
    using that by (cases op) (simp_all add: nth_le_bytes del: le_bytes.simps)
  have doubles: "\<forall>i < write_width op.
      uint (field_bytes op ! i) = uint (double_bits d) div 2 ^ (8 * i) mod 2 ^ 8"
    if "written_value op = DoubleValue d" for d
    using that by (cases op) (simp_all add: nth_le_bytes del: le_bytes.simps)
  have spans: "field_bytes op = bs" if "written_value op = BytesValue bs" for bs
    using that by (cases op) simp_all
  have ok: "\<exists>chunk. call_write s op = (Inr (), s\<lparr>BinWriter.buffer := BinWriter.buffer s @ chunk\<rparr>) \<and>
         length chunk = write_width op \<and>
         (\<forall>v. written_value op = IntValue v \<longrightarrow>
            (\<forall>i < write_width op. uint (chunk ! i) = v div 2 ^ (8 * i) mod 2 ^ 8)) \<and>
         (\<forall>f. written_value op = Float32Value f \<longrightarrow>
            (\<forall>i < write_width op.
               uint (chunk ! i) = uint (float32_bits f) div 2 ^ (8 * i) mod 2 ^ 8)) \<and>
         (\<forall>d. written_value op = DoubleValue d \<longrightarrow>
            (\<forall>i < write_width op.
               uint (chunk ! i) = uint (double_bits d) div 2 ^ (8 * i) mod 2 ^ 8)) \<and>
         (\<forall>bs. written_value op = BytesValue bs \<longrightarrow> chunk = bs)"
    if "representable op"
  proof (intro exI conjI)
    show "call_write s op
        = (Inr (), s\<lparr>BinWriter.buffer := BinWriter.buffer s @ field_bytes op\<rparr>)"
      using that by (simp add: call_write_eq)
    show "length (field_bytes op) = write_width op"
      by (rule length_field_bytes)
  qed (use ints floats doubles spans in blast)+
  have bad: "call_write s op = (Inl (ERR_OUT_OF_RANGE ''value''), s)" if "\<not> representable op"
    using that by (simp add: call_write_eq)
  show ?thesis
    using ok bad by blast
qed

text \<open>
  \<open>writeInt16(-2)\<close>, \<open>writeInt16(65534)\<close>, \<open>writeFloat32\<close> of the float32 nearest to
  \<open>0xcafebabe\<close> (bit pattern \<open>0x4F4AFEBB\<close>) and \<open>writeBytes\<close> of two bytes, each on a fresh
  writer.
\<close>

theorem write_range_witness:
  "representable (WriteInt16 (- 2)) \<and> \<not> representable (WriteInt16 65534) \<and>
   call_write new_BinWriter (WriteInt16 (- 2)) = (Inr (), \<lparr>BinWriter.buffer = [0xFE, 0xFF]\<rparr>) \<and>
   uint (0xFE :: byte) = (- 2) div 2 ^ (8 * 0) mod 2 ^ 8 \<and>
   uint (0xFF :: byte) = (- 2) div 2 ^ (8 * 1) mod 2 ^ 8 \<and>
   call_write new_BinWriter (WriteInt16 65534) = (Inl (ERR_OUT_OF_RANGE ''value''), new_BinWriter) \<and>
   representable (WriteFloat32 (Float32 0x4F4AFEBB)) \<and>
   call_write new_BinWriter (WriteFloat32 (Float32 0x4F4AFEBB))
     = (Inr (), \<lparr>BinWriter.buffer = [0xBB, 0xFE, 0x4A, 0x4F]\<rparr>) \<and>
   representable (WriteBytes [0x01, 0x02]) \<and>
   call_write new_BinWriter (WriteBytes [0x01, 0x02])
     = (Inr (), \<lparr>BinWriter.buffer = [0x01, 0x02]\<rparr>)"
proof -
  have r: "representable (WriteInt16 (- 2))" and n: "\<not> representable (WriteInt16 65534)"
    and f: "representable (WriteFloat32 (Float32 0x4F4AFEBB))"
    and b: "representable (WriteBytes [0x01, 0x02])"
    by simp_all
  have w: "call_write new_BinWriter (WriteInt16 (- 2)) = (Inr (), \<lparr>BinWriter.buffer = [0xFE, 0xFF]\<rparr>)"
    by (simp add: call_write_eq new_BinWriter_def Buffer_alloc_def le_bytes_unfold
        del: le_bytes.simps)
  have wf: "call_write new_BinWriter (WriteFloat32 (Float32 0x4F4AFEBB))
     = (Inr (), \<lparr>BinWriter.buffer = [0xBB, 0xFE, 0x4A, 0x4F]\<rparr>)"
    by (simp add: call_write_eq new_BinWriter_def Buffer_alloc_def le_bytes_unfold
        del: le_bytes.simps)
  have wb: "call_write new_BinWriter (WriteBytes [0x01, 0x02])
     = (Inr (), \<lparr>BinWriter.buffer = [0x01, 0x02]\<rparr>)"
    using write_range [of "WriteBytes [0x01, 0x02]" new_BinWriter]
    by (simp add: new_BinWriter_def Buffer_alloc_def)
  show ?thesis
    using r n f b w wf wb write_range [of "WriteInt16 (- 2)" new_BinWriter]
      write_range [of "WriteInt16 65534" new_BinWriter]
    by simp
qed

section \<open>\<open>readBytes\<close>\<close>

lemma adjustOffset_clamp:
  "adjustOffset i (int (length buf)) = int (clamp_index buf (from_end buf i))"
  by (simp add: adjustOffset_def clamp_index_def from_end_def)

lemma clamp_index_le: "clamp_index buf i \<le> length buf"
  by (simp add: clamp_index_def)

lemma take_drop_nth: "m + n \<le> length xs \<Longrightarrow> take n (drop m xs) = map (\<lambda>i. xs ! i) [m ..< m + n]"
  by (rule nth_equalityI) simp_all

lemma subarray_end_relative: "Buffer_subarray buf start end = end_relative_span buf start end"
proof -
  let ?s = "clamp_index buf (from_end buf start)" and ?e = "clamp_index buf (from_end buf end)"
  show ?thesis
  proof (cases "?s < ?e")
    case True
    then have "take (?e - ?s) (drop ?s buf) = map (\<lambda>i. buf ! i) [?s ..< ?s + (?e - ?s)]"
      using clamp_index_le [of buf "from_end buf end"] by (intro take_drop_nth) simp
    with True show ?thesis
      by (simp add: Buffer_subarray_def Let_def adjustOffset_clamp end_relative_span_def
          clamped_span_def nat_diff_distrib')
  next
    case False
    then show ?thesis
      by (simp add: Buffer_subarray_def Let_def adjustOffset_clamp end_relative_span_def
          clamped_span_def)
  qed
qed

text \<open>
  The sum of \<open>readBytes\<close> rounds: from \<open>position\<close> \<open>2 ^ 53\<close>, reached by \<open>readBytes(2 ^ 53)\<close>
  on a fresh reader, \<open>readBytes(1)\<close> leaves \<open>position\<close> where it is, and so does
  \<open>readBytes(-1)\<close> from \<open>- (2 ^ 53)\<close>.
\<close>

lemma bit_length_eq: "2 ^ k \<le> n \<Longrightarrow> n < 2 ^ Suc k \<Longrightarrow> bit_length n = Suc k"
  using bit_length_le [of n "Suc k"] floorlog_geI [of 2 "Suc k" n]
  by (simp add: bit_length_floorlog)

lemma float64_round_above_safe: "float64_round (2 ^ 53 + 1) = 2 ^ 53"
proof -
  have "bit_length (2 ^ 53 + 1) = Suc 53"
    by (rule bit_length_eq) simp_all
  then have "round_nearest_even (2 ^ 53 + 1) = 2 ^ 53"
    by (simp add: round_nearest_even_def float64_ulp_def)
  moreover have "(2::nat) ^ 53 \<le> float64_infinity"
    using safe_less_infinity by simp
  ultimately show ?thesis
    by (simp add: float64_round_def nat_add_distrib nat_power_eq)
qed

lemma readBytes_rounds:
  "position (run_reads (new_BinReader []) [ReadBytes (2 ^ 53), ReadBytes 1]) = 2 ^ 53"
  "position (run_reads (new_BinReader []) [ReadBytes (- (2 ^ 53)), ReadBytes (- 1)]) = - (2 ^ 53)"
proof -
  have "float64_add (2 ^ 53) 1 = float64_round (2 ^ 53 + 1)"
    using safe_less_infinity_int by (simp add: float64_add_def)
  then have up: "float64_add (2 ^ 53) 1 = 2 ^ 53"
    by (simp only: float64_round_above_safe)
  have "float64_add (- (2 ^ 53)) (- 1) = float64_round (- (2 ^ 53 + 1))"
    using safe_less_infinity_int by (simp add: float64_add_def)
  then have down: "float64_add (- (2 ^ 53)) (- 1) = - (2 ^ 53)"
    by (simp only: float64_round_minus float64_round_above_safe)
  show "position (run_reads (new_BinReader []) [ReadBytes (2 ^ 53), ReadBytes 1]) = 2 ^ 53"
    using up by (simp add: readBytes_def new_BinReader_def float64_add_0_left)
  show "position (run_reads (new_BinReader []) [ReadBytes (- (2 ^ 53)), ReadBytes (- 1)])
      = - (2 ^ 53)"
    using down by (simp add: readBytes_def new_BinReader_def float64_add_0_left)
qed

text \<open>
  C10 as stated says that \<open>readBytes(length)\<close> returns the bytes from \<open>position\<close> to
  \<open>position + length\<close> with both endpoints clamped to the bounds of the buffer.  On a
  fresh reader over three bytes \<open>readBytes(-1)\<close> returns the first two bytes, where
  clamping the endpoints 0 and \<open>-1\<close> gives the empty span: \<open>subarray\<close> counts a negative
  endpoint from the end of the buffer.
\<close>

theorem readBytes_negative_end_counterexample:
  "fst (readBytes (new_BinReader [0x01, 0x02, 0x03]) (- 1)) = Inr [0x01, 0x02] \<and>
   clamped_span [0x01, 0x02, 0x03] (position (new_BinReader [0x01, 0x02, 0x03]))
     (position (new_BinReader [0x01, 0x02, 0x03]) + (- 1)) = []"
  by (simp add: readBytes_def new_BinReader_def Buffer_subarray_def adjustOffset_def
      clamped_span_def clamp_index_def float64_add_0_left)

text \<open>
  C10, amended: for every reader state and every integer length, \<open>readBytes(length)\<close>
  raises no error; it returns the span of the buffer from \<open>position\<close> to
  \<open>position + length\<close>, each endpoint, when negative, counted from the end of the buffer
  and then clamped to the bounds of the buffer (so the span may be shorter than
  \<open>length\<close>, possibly empty), and it sets \<open>position\<close> to \<open>position + length\<close>
  unconditionally.  Here \<open>position + length\<close> is the float64 sum the program computes; it
  is the exact sum whenever \<open>position\<close> and the exact sum are below \<open>2 ^ 53\<close> in magnitude.
  When neither endpoint is negative the span is the one with the endpoints clamped.
\<close>

theorem readBytes_total:
  "readBytes r len =
     (Inr (end_relative_span (BinReader.buffer r) (position r) (float64_add (position r) len)),
      r\<lparr>position := float64_add (position r) len\<rparr>) \<and>
   (\<bar>position r\<bar> < 2 ^ 53 \<and> \<bar>position r + len\<bar> < 2 ^ 53 \<longrightarrow>
      float64_add (position r) len = position r + len) \<and>
   (0 \<le> position r \<and> 0 \<le> float64_add (position r) len \<longrightarrow>
      end_relative_span (BinReader.buffer r) (position r) (float64_add (position r) len)
        = clamped_span (BinReader.buffer r) (position r) (float64_add (position r) len))"
proof (intro conjI impI)
  show "readBytes r len =
     (Inr (end_relative_span (BinReader.buffer r) (position r) (float64_add (position r) len)),
      r\<lparr>position := float64_add (position r) len\<rparr>)"
    by (simp add: readBytes_def subarray_end_relative)
  show "float64_add (position r) len = position r + len"
    if "\<bar>position r\<bar> < 2 ^ 53 \<and> \<bar>position r + len\<bar> < 2 ^ 53"
    using that by (intro float64_add_safe) simp_all
  show "end_relative_span (BinReader.buffer r) (position r) (float64_add (position r) len)
        = clamped_span (BinReader.buffer r) (position r) (float64_add (position r) len)"
    if "0 \<le> position r \<and> 0 \<le> float64_add (position r) len"
    using that by (simp add: end_relative_span_def from_end_def)
qed

text \<open>\<open>readBytes(5)\<close> at \<open>position\<close> 1 of a three-byte buffer: two bytes, \<open>position\<close> 6.\<close>

theorem readBytes_total_witness:
  "readBytes \<lparr>BinReader.buffer = [0x01, 0x02, 0x03], position = 1\<rparr> 5
     = (Inr [0x02, 0x03], \<lparr>BinReader.buffer = [0x01, 0x02, 0x03], position = 6\<rparr>) \<and>
   \<bar>1 :: int\<bar> < 2 ^ 53 \<and> \<bar>1 + 5 :: int\<bar> < 2 ^ 53 \<and> float64_add 1 5 = 1 + 5 \<and>
   (0::int) \<le> 1 \<and> (0::int) \<le> float64_add 1 5 \<and>
   clamped_span [0x01, 0x02, 0x03] 1 (float64_add 1 5) = [0x02, 0x03]"
proof -
  have s: "float64_add 1 5 = 6"
    by (simp add: float64_add_safe)
  have c: "clamped_span [0x01, 0x02, 0x03 :: byte] 1 6 = [0x02, 0x03]"
    by (simp add: clamped_span_def clamp_index_def upt_rec numeral_eq_Suc)
  show ?thesis
    using s c readBytes_total [of "\<lparr>BinReader.buffer = [0x01, 0x02, 0x03], position = 1\<rparr>" 5]
    by simp
qed

text \<open>
  C5 as stated says that \<open>readBytes\<close> with a negative length fails with
  \<open>InvalidArgument\<close>, returns no value and leaves \<open>position\<close> unchanged.  \<open>readBytes(-1)\<close>
  on a fresh reader over the empty buffer returns an empty span and leaves \<open>position\<close>
  at \<open>-1\<close>.
\<close>

theorem readBytes_negative_length_counterexample:
  "readBytes (new_BinReader []) (- 1) = (Inr [], \<lparr>BinReader.buffer = [], position = - 1\<rparr>)"
  by (simp add: readBytes_def new_BinReader_def Buffer_subarray_def adjustOffset_def
      float64_add_0_left)

text \<open>
  C5, amended: for every reader and every negative length \<open>n\<close>, \<open>readBytes(n)\<close> does not
  fail; it returns a span and sets \<open>position\<close> to the float64 sum \<open>position + n\<close>.  That
  sum is not above the position before (\<open>position\<close> being a number); whenever
  \<open>position\<close> and the exact sum are below \<open>2 ^ 53\<close> in magnitude it is the exact sum,
  below the position before.
\<close>

theorem readBytes_negative_length:
  assumes "len < 0"
  shows "(\<exists>v. readBytes r len = (Inr v, r\<lparr>position := float64_add (position r) len\<rparr>)) \<and>
         (float64_int (position r) \<longrightarrow> position (snd (readBytes r len)) \<le> position r) \<and>
         (\<bar>position r\<bar> < 2 ^ 53 \<and> \<bar>position r + len\<bar> < 2 ^ 53 \<longrightarrow>
            position (snd (readBytes r len)) = position r + len \<and>
            position (snd (readBytes r len)) < position r)"
proof (intro conjI impI)
  show "\<exists>v. readBytes r len = (Inr v, r\<lparr>position := float64_add (position r) len\<rparr>)"
    by (simp add: readBytes_def Let_def)
  show "position (snd (readBytes r len)) \<le> position r" if "float64_int (position r)"
    using that assms float64_add_le [of "position r" len] by (simp add: readBytes_def Let_def)
  assume "\<bar>position r\<bar> < 2 ^ 53 \<and> \<bar>position r + len\<bar> < 2 ^ 53"
  then have "float64_add (position r) len = position r + len"
    by (intro float64_add_safe) simp_all
  then show "position (snd (readBytes r len)) = position r + len"
    and "position (snd (readBytes r len)) < position r"
    using assms by (simp_all add: readBytes_def Let_def)
qed

text \<open>\<open>readBytes(-2)\<close> at \<open>position\<close> 3 of a three-byte buffer.\<close>

theorem readBytes_negative_length_witness:
  "(- 2 :: int) < 0 \<and> float64_int 3 \<and> \<bar>3 :: int\<bar> < 2 ^ 53 \<and> \<bar>3 + (- 2) :: int\<bar> < 2 ^ 53 \<and>
   readBytes \<lparr>BinReader.buffer = [0x01, 0x02, 0x03], position = 3\<rparr> (- 2)
     = (Inr [], \<lparr>BinReader.buffer = [0x01, 0x02, 0x03], position = 1\<rparr>) \<and>
   position (snd (readBytes \<lparr>BinReader.buffer = [0x01, 0x02, 0x03], position = 3\<rparr> (- 2))) < 3"
proof -
  have n: "(- 2 :: int) < 0" by simp
  have f: "float64_int 3" by (simp add: float64_int_safe)
  have v: "readBytes \<lparr>BinReader.buffer = [0x01, 0x02, 0x03], position = 3\<rparr> (- 2)
     = (Inr [], \<lparr>BinReader.buffer = [0x01, 0x02, 0x03], position = 1\<rparr>)"
    by (simp add: readBytes_def Buffer_subarray_def adjustOffset_def float64_add_safe)
  show ?thesis
    using n f v readBytes_negative_length [OF n, of "\<lparr>BinReader.buffer = [0x01, 0x02, 0x03], position = 3\<rparr>"]
    by simp
qed

section \<open>Position of the reader\<close>

lemma call_read_readBytes:
  "call_read r (ReadBytes len) =
     (Inr (BytesValue (Buffer_subarray (BinReader.buffer r) (position r)
             (float64_add (position r) len))),
      r\<lparr>position := float64_add (position r) len\<rparr>)"
  by (simp add: readBytes_def)

lemma call_read_buffer: "BinReader.buffer (snd (call_read r op)) = BinReader.buffer r"
proof (cases "fixed_width op")
  case True
  then show ?thesis by (simp add: call_read_fixed)
next
  case False
  then obtain len where "op = ReadBytes len" by (cases op) simp_all
  then show ?thesis by (simp add: call_read_readBytes del: call_read.simps)
qed

lemma run_reads_buffer: "BinReader.buffer (run_reads r ops) = BinReader.buffer r"
  by (induction ops arbitrary: r) (simp_all add: call_read_buffer del: call_read.simps)

lemma fixed_width_nonneg: "fixed_width op \<Longrightarrow> 0 \<le> read_width op"
  by (cases op) simp_all

lemma call_read_success_sum:
  assumes "call_read r op = (Inr v, r')" and "int (length (BinReader.buffer r)) < 2 ^ 53"
  shows "position r' = float64_add (position r) (read_width op)"
proof (cases "fixed_width op")
  case True
  with assms(1) have ok: "0 \<le> position r"
      "position r + read_width op \<le> int (length (BinReader.buffer r))"
    and p: "position r' = position r + read_width op"
    by (auto simp add: call_read_fixed split: if_splits)
  have "float64_add (position r) (read_width op) = position r + read_width op"
    using ok assms(2) fixed_width_nonneg [OF True] by (intro float64_add_safe) simp_all
  with p show ?thesis by simp
next
  case False
  then obtain len where "op = ReadBytes len" by (cases op) simp_all
  with assms(1) show ?thesis by (auto simp add: call_read_readBytes simp del: call_read.simps)
qed

lemma call_read_success_exact:
  assumes "call_read r op = (Inr v, r')"
    and "\<bar>position r\<bar> < 2 ^ 53" and "\<bar>position r + read_width op\<bar> < 2 ^ 53"
  shows "position r' = position r + read_width op"
proof (cases "fixed_width op")
  case True
  with assms(1) show ?thesis
    by (auto simp add: call_read_fixed split: if_splits)
next
  case False
  then obtain len where op: "op = ReadBytes len" by (cases op) simp_all
  have "float64_add (position r) len = position r + len"
    using assms(2,3) op by (intro float64_add_safe) simp_all
  with assms(1) op show ?thesis
    by (auto simp add: call_read_readBytes simp del: call_read.simps)
qed

lemma call_read_position_mono:
  assumes "nonneg_length op" and "float64_int (position r)"
  shows "position r \<le> position (snd (call_read r op))"
proof (cases "fixed_width op")
  case True
  with fixed_width_nonneg [OF True] show ?thesis by (simp add: call_read_fixed)
next
  case False
  then obtain len where "op = ReadBytes len" by (cases op) simp_all
  with assms show ?thesis
    using float64_add_ge [of "position r" len]
    by (simp add: call_read_readBytes del: call_read.simps)
qed

lemma call_read_position_number:
  assumes "number_length op" and "float64_int (position r)"
    and "int (length (BinReader.buffer r)) < 2 ^ 53"
  shows "float64_int (position (snd (call_read r op)))"
proof (cases "fixed_width op")
  case True
  let ?ok = "0 \<le> position r \<and>
      position r + read_width op \<le> int (length (BinReader.buffer r))"
  have p: "position (snd (call_read r op))
      = (if ?ok then position r + read_width op else position r)"
    using True by (simp add: call_read_fixed)
  show ?thesis
  proof (cases ?ok)
    case True
    with assms(3) fixed_width_nonneg [OF \<open>fixed_width op\<close>]
    have "\<bar>position r + read_width op\<bar> < 2 ^ 53" by simp
    then have "float64_int (position r + read_width op)" by (rule float64_int_safe)
    with True show ?thesis by (simp add: p)
  next
    case False
    with assms(2) show ?thesis by (auto simp add: p)
  qed
next
  case False
  then obtain len where "op = ReadBytes len" by (cases op) simp_all
  with assms(1,2) show ?thesis
    using float64_int_add [of "position r" len]
    by (simp add: call_read_readBytes del: call_read.simps)
qed

lemma run_reads_position_mono:
  assumes "\<forall>op \<in> set ops. nonneg_length op \<and> number_length op"
    and "float64_int (position r)" and "int (length (BinReader.buffer r)) < 2 ^ 53"
  shows "position r \<le> position (run_reads r ops)"
  using assms
proof (induction ops arbitrary: r)
  case Nil
  show ?case by simp
next
  case (Cons op ops)
  let ?r = "snd (call_read r op)"
  have "position r \<le> position ?r"
    using Cons.prems by (intro call_read_position_mono) simp_all
  also have "\<dots> \<le> position (run_reads ?r ops)"
  proof (rule Cons.IH)
    show "\<forall>op \<in> set ops. nonneg_length op \<and> number_length op"
      using Cons.prems(1) by simp
    show "float64_int (position ?r)"
      using Cons.prems by (intro call_read_position_number) simp_all
    show "int (length (BinReader.buffer ?r)) < 2 ^ 53"
      using Cons.prems(3) by (simp only: call_read_buffer)
  qed
  finally show ?case by simp
qed

lemma call_read_inv:
  assumes "reader_inv r" and "readBytes_in_range r op"
  shows "reader_inv (snd (call_read r op))"
proof (cases "fixed_width op")
  case True
  with fixed_width_nonneg [OF True] assms(1) show ?thesis
    by (simp add: call_read_fixed reader_inv_def)
next
  case False
  then obtain len where "op = ReadBytes len" by (cases op) simp_all
  with assms(2) show ?thesis
    by (simp add: call_read_readBytes reader_inv_def del: call_read.simps)
qed

lemma run_reads_inv:
  "reader_inv r \<Longrightarrow> in_range_run r ops \<Longrightarrow> reader_inv (run_reads r ops)"
proof (induction ops arbitrary: r)
  case Nil
  then show ?case by simp
next
  case (Cons op ops)
  then show ?case by (simp add: call_read_inv del: call_read.simps)
qed

lemma in_range_run_append: "in_range_run r (ops1 @ ops2) \<Longrightarrow> in_range_run r ops1"
  by (induction ops1 arbitrary: r) (simp_all del: call_read.simps)

text \<open>
  C4 as stated says that \<open>0 \<le> position \<le> buffer.length\<close> holds after every operation
  that succeeds, \<open>readBytes\<close> with any length included.  \<open>readBytes(1)\<close> on a fresh reader
  over the empty buffer succeeds and leaves \<open>position\<close> at 1.
\<close>

theorem readBytes_past_end_counterexample:
  "fst (readBytes (new_BinReader []) 1) = Inr [] \<and>
   \<not> reader_inv (snd (readBytes (new_BinReader []) 1))"
  by (simp add: readBytes_def new_BinReader_def Buffer_subarray_def adjustOffset_def
      reader_inv_def float64_add_0_left)

text \<open>
  C4, amended: for every reader that satisfies \<open>0 \<le> position \<le> buffer.length\<close> (a
  fresh one does) and every sequence of operations in which each \<open>readBytes\<close> is called
  with a length that keeps \<open>position + length\<close> between 0 and \<open>buffer.length\<close>, the
  invariant holds after every operation of the sequence (after every initial part
  \<open>ops1\<close> of it); and a fixed-width operation that would need
  \<open>position + width > buffer.length\<close> then fails without advancing \<open>position\<close>.
\<close>

theorem reader_invariant:
  assumes "reader_inv r" and "in_range_run r (ops1 @ ops2)"
  shows "reader_inv (run_reads r ops1) \<and>
         (\<forall>op. fixed_width op \<and>
               int (length (BinReader.buffer (run_reads r ops1)))
                 < position (run_reads r ops1) + read_width op \<longrightarrow>
               (\<exists>e. call_read (run_reads r ops1) op = (Inl e, run_reads r ops1)))"
  using run_reads_inv [OF assms(1) in_range_run_append [OF assms(2)]]
  by (simp add: call_read_fixed del: call_read.simps)

text \<open>
  Three calls on a fresh reader over three bytes, seen after the second; a \<open>readUInt8\<close>
  there throws and leaves the reader as it is.
\<close>

theorem reader_invariant_witness:
  "reader_inv (new_BinReader [0x01, 0x02, 0x03]) \<and>
   in_range_run (new_BinReader [0x01, 0x02, 0x03]) ([ReadUInt8, ReadBytes 2] @ [ReadInt32]) \<and>
   run_reads (new_BinReader [0x01, 0x02, 0x03]) [ReadUInt8, ReadBytes 2]
     = \<lparr>BinReader.buffer = [0x01, 0x02, 0x03], position = 3\<rparr> \<and>
   reader_inv \<lparr>BinReader.buffer = [0x01, 0x02, 0x03], position = 3\<rparr> \<and>
   fixed_width ReadUInt8 \<and>
   (\<exists>e. call_read \<lparr>BinReader.buffer = [0x01, 0x02, 0x03], position = 3\<rparr> ReadUInt8
          = (Inl e, \<lparr>BinReader.buffer = [0x01, 0x02, 0x03], position = 3\<rparr>))"
proof -
  have i: "reader_inv (new_BinReader [0x01, 0x02, 0x03])"
    by (simp add: reader_inv_def new_BinReader_def)
  have s1: "call_read (new_BinReader [0x01, 0x02, 0x03]) ReadUInt8
      = (Inr (IntValue 1), \<lparr>BinReader.buffer = [0x01, 0x02, 0x03], position = 1\<rparr>)"
    by (simp add: call_read_fixed new_BinReader_def del: call_read.simps)
  have s2: "call_read \<lparr>BinReader.buffer = [0x01, 0x02, 0x03], position = 1\<rparr> (ReadBytes 2)
      = (Inr (BytesValue [0x02, 0x03]), \<lparr>BinReader.buffer = [0x01, 0x02, 0x03], position = 3\<rparr>)"
    by (simp add: call_read_readBytes Buffer_subarray_def adjustOffset_def float64_add_safe
        del: call_read.simps)
  have g: "in_range_run (new_BinReader [0x01, 0x02, 0x03]) ([ReadUInt8, ReadBytes 2] @ [ReadInt32])"
    by (simp add: s1 s2 float64_add_safe del: call_read.simps)
  have run: "run_reads (new_BinReader [0x01, 0x02, 0x03]) [ReadUInt8, ReadBytes 2]
     = \<lparr>BinReader.buffer = [0x01, 0x02, 0x03], position = 3\<rparr>"
    by (simp add: s1 s2 del: call_read.simps)
  have f: "fixed_width ReadUInt8" by simp
  note t = reader_invariant [OF i g, unfolded run]
  have a: "reader_inv \<lparr>BinReader.buffer = [0x01, 0x02, 0x03], position = 3\<rparr>"
    using t by (rule conjunct1)
  have b: "\<exists>e. call_read \<lparr>BinReader.buffer = [0x01, 0x02, 0x03], position = 3\<rparr> ReadUInt8
          = (Inl e, \<lparr>BinReader.buffer = [0x01, 0x02, 0x03], position = 3\<rparr>)"
    by (rule t [THEN conjunct2, rule_format, of ReadUInt8]) simp
  show ?thesis
    using i g run f a b by (intro conjI)
qed

text \<open>
  C7 as stated says that \<open>position\<close> never decreases across any sequence of
  operations.  \<open>readBytes(-1)\<close> on a fresh reader takes it from 0 to \<open>-1\<close>.
\<close>

theorem position_decreases_counterexample:
  "position (new_BinReader []) = 0 \<and>
   position (run_reads (new_BinReader []) [ReadBytes (- 1)]) = - 1"
  by (simp add: readBytes_def new_BinReader_def float64_add_0_left)

text \<open>
  C7, amended: \<open>position\<close> is 0 at construction; after every read that succeeds it is
  the float64 sum of the position before and the byte width of the read (for
  \<open>readBytes\<close>, the length the caller gave), which is the exact sum whenever the position
  before and the exact sum are below \<open>2 ^ 53\<close> in magnitude; and it never decreases across
  a sequence of operations in which no \<open>readBytes\<close> is called with a negative length.
  The reader is any reader whose \<open>position\<close> is a number and whose buffer has fewer than
  \<open>2 ^ 53\<close> bytes, as every \<open>Buffer\<close> has, and the lengths given to \<open>readBytes\<close> are numbers.
\<close>

theorem position_advances:
  assumes "\<forall>op \<in> set ops. nonneg_length op \<and> number_length op"
    and "float64_int (position r)" and "int (length (BinReader.buffer r)) < 2 ^ 53"
  shows "position (new_BinReader buf) = 0 \<and>
         (\<forall>op v r'. call_read r op = (Inr v, r') \<longrightarrow>
            position r' = float64_add (position r) (read_width op) \<and>
            (\<bar>position r\<bar> < 2 ^ 53 \<and> \<bar>position r + read_width op\<bar> < 2 ^ 53 \<longrightarrow>
               position r' = position r + read_width op)) \<and>
         position r \<le> position (run_reads r ops)"
proof (intro conjI allI impI)
  show "position (new_BinReader buf) = 0"
    by (simp add: new_BinReader_def)
  show "position r' = float64_add (position r) (read_width op)"
    if "call_read r op = (Inr v, r')" for op v r'
    using that assms(3) by (rule call_read_success_sum)
  show "position r' = position r + read_width op"
    if "call_read r op = (Inr v, r')"
      and "\<bar>position r\<bar> < 2 ^ 53 \<and> \<bar>position r + read_width op\<bar> < 2 ^ 53" for op v r'
    using that by (intro call_read_success_exact [of r op v r']) simp_all
  show "position r \<le> position (run_reads r ops)"
    using assms by (rule run_reads_position_mono)
qed

text \<open>\<open>readUInt16\<close>, then \<open>readBytes(1)\<close>, on a fresh reader over three bytes.\<close>

theorem position_advances_witness:
  "nonneg_length ReadUInt16 \<and> number_length ReadUInt16 \<and>
   nonneg_length (ReadBytes 1) \<and> number_length (ReadBytes 1) \<and>
   float64_int (position (new_BinReader [0x04, 0x03, 0x02])) \<and>
   int (length (BinReader.buffer (new_BinReader [0x04, 0x03, 0x02]))) < 2 ^ 53 \<and>
   call_read (new_BinReader [0x04, 0x03, 0x02]) ReadUInt16
     = (Inr (IntValue 772), \<lparr>BinReader.buffer = [0x04, 0x03, 0x02], position = 0 + read_width ReadUInt16\<rparr>) \<and>
   position (new_BinReader [0x04, 0x03, 0x02])
     \<le> position (run_reads (new_BinReader [0x04, 0x03, 0x02]) [ReadUInt16, ReadBytes 1]) \<and>
   position (run_reads (new_BinReader [0x04, 0x03, 0x02]) [ReadUInt16, ReadBytes 1]) = 3"
proof -
  have h: "\<forall>op \<in> set [ReadUInt16, ReadBytes 1]. nonneg_length op \<and> number_length op"
    by (simp add: float64_int_safe)
  have n: "float64_int (position (new_BinReader [0x04, 0x03, 0x02]))"
    by (simp add: new_BinReader_def float64_int_safe)
  have l: "int (length (BinReader.buffer (new_BinReader [0x04, 0x03, 0x02]))) < 2 ^ 53"
    by (simp add: new_BinReader_def)
  have s1: "call_read (new_BinReader [0x04, 0x03, 0x02]) ReadUInt16
     = (Inr (IntValue 772), \<lparr>BinReader.buffer = [0x04, 0x03, 0x02], position = 0 + read_width ReadUInt16\<rparr>)"
    by (simp add: call_read_fixed new_BinReader_def del: call_read.simps)
  have run: "position (run_reads (new_BinReader [0x04, 0x03, 0x02]) [ReadUInt16, ReadBytes 1]) = 3"
    by (simp add: s1 call_read_readBytes float64_add_safe del: call_read.simps)
  note t = position_advances [OF h n l, of "[0x04, 0x03, 0x02]"]
  have m: "position (new_BinReader [0x04, 0x03, 0x02])
     \<le> position (run_reads (new_BinReader [0x04, 0x03, 0x02]) [ReadUInt16, ReadBytes 1])"
    using t by simp
  show ?thesis
    using h n l s1 run m by (simp del: call_read.simps)
qed

section \<open>The writer only appends\<close>

lemma run_writes_buffer:
  "run_writes s ops = Inr s' \<Longrightarrow>
     BinWriter.buffer s' = BinWriter.buffer s @ concat (map field_bytes ops)"
proof (induction ops arbitrary: s)
  case Nil
  then show ?case by simp
next
  case (Cons op ops)
  show ?case
  proof (cases "representable op")
    case True
    with Cons.prems have
      "run_writes (s\<lparr>BinWriter.buffer := BinWriter.buffer s @ field_bytes op\<rparr>) ops = Inr s'"
      by (simp add: call_write_eq del: call_write.simps)
    from Cons.IH [OF this] show ?thesis by simp
  next
    case False
    with Cons.prems show ?thesis by (simp add: call_write_eq del: call_write.simps)
  qed
qed

lemma run_writes_append:
  "run_writes s (ops1 @ ops2) =
     (case run_writes s ops1 of Inl e \<Rightarrow> Inl e | Inr s1 \<Rightarrow> run_writes s1 ops2)"
proof (induction ops1 arbitrary: s)
  case Nil
  show ?case by simp
next
  case (Cons op ops1)
  show ?case
    by (cases "representable op") (simp_all add: call_write_eq Cons.IH del: call_write.simps)
qed

lemma length_concat_field_bytes:
  "length (concat (map field_bytes ops)) = sum_list (map write_width ops)"
  by (induction ops) (simp_all add: length_field_bytes)

text \<open>
  C6: for every sequence of successful writes on a fresh writer, after each write (after
  every initial part \<open>ops1\<close> of the sequence) the length of the buffer is the sum of the
  byte widths of the values written so far, where the width of a typed write is fixed by
  its type and does not depend on the value; and the bytes that were in the buffer then
  are still its first bytes after all later writes.
\<close>

theorem writer_append_only:
  assumes "run_writes new_BinWriter (ops1 @ ops2) = Inr s'"
  shows "\<exists>s1. run_writes new_BinWriter ops1 = Inr s1 \<and>
           length (BinWriter.buffer s1) = sum_list (map write_width ops1) \<and>
           take (length (BinWriter.buffer s1)) (BinWriter.buffer s') = BinWriter.buffer s1"
proof -
  from assms obtain s1 where
    s1: "run_writes new_BinWriter ops1 = Inr s1" and s': "run_writes s1 ops2 = Inr s'"
    by (auto simp add: run_writes_append split: sum.splits)
  have "BinWriter.buffer s1 = concat (map field_bytes ops1)"
    using run_writes_buffer [OF s1] by (simp add: new_BinWriter_def Buffer_alloc_def)
  then have len: "length (BinWriter.buffer s1) = sum_list (map write_width ops1)"
    by (simp add: length_concat_field_bytes)
  have "take (length (BinWriter.buffer s1)) (BinWriter.buffer s') = BinWriter.buffer s1"
    using run_writes_buffer [OF s'] by simp
  with s1 len show ?thesis by blast
qed

text \<open>\<open>writeUInt8(255)\<close>, \<open>writeInt16(-2)\<close>, then \<open>writeBytes\<close> of three bytes.\<close>

theorem writer_append_only_witness:
  "run_writes new_BinWriter ([WriteUInt8 255, WriteInt16 (- 2)] @ [WriteBytes [0x01, 0x02, 0x03]])
     = Inr \<lparr>BinWriter.buffer = [0xFF, 0xFE, 0xFF, 0x01, 0x02, 0x03]\<rparr> \<and>
   run_writes new_BinWriter [WriteUInt8 255, WriteInt16 (- 2)]
     = Inr \<lparr>BinWriter.buffer = [0xFF, 0xFE, 0xFF]\<rparr> \<and>
   length [0xFF, 0xFE, 0xFF :: byte] = sum_list (map write_width [WriteUInt8 255, WriteInt16 (- 2)])"
proof -
  have a: "run_writes new_BinWriter ([WriteUInt8 255, WriteInt16 (- 2)] @ [WriteBytes [0x01, 0x02, 0x03]])
     = Inr \<lparr>BinWriter.buffer = [0xFF, 0xFE, 0xFF, 0x01, 0x02, 0x03]\<rparr>"
    by (simp add: call_write_eq new_BinWriter_def Buffer_alloc_def le_bytes_unfold
        del: call_write.simps le_bytes.simps)
  show ?thesis
    using a writer_append_only [OF a] by auto
qed

end
